theory Spec2Isabelle
  imports Main
begin

section \<open>Strings and regular expressions of the host language\<close>

text \<open>
  A JavaScript string is a sequence of UTF-16 code units. The patterns of the plugin
  contain CJK characters, so a code unit is an integer and a string is a list of
  them; \<open>js ''abc''\<close> writes an ASCII literal.
\<close>

type_synonym cu = int
type_synonym jstring = "cu list"

definition js :: "string \<Rightarrow> jstring" where
  "js s = map of_char s"

text \<open>A character class is a list of inclusive ranges, possibly negated (\<open>[^...]\<close>).\<close>

datatype cls = Pos "(cu \<times> cu) list" | Neg "(cu \<times> cu) list"

fun in_ranges :: "(cu \<times> cu) list \<Rightarrow> cu \<Rightarrow> bool" where
  "in_ranges [] c = False"
| "in_ranges ((lo, hi) # rs) c = ((lo \<le> c \<and> c \<le> hi) \<or> in_ranges rs c)"

fun cls_ok :: "cls \<Rightarrow> cu \<Rightarrow> bool" where
  "cls_ok (Pos rs) c = in_ranges rs c"
| "cls_ok (Neg rs) c = (\<not> in_ranges rs c)"

text \<open>\<open>\d\<close>, \<open>\s\<close>, \<open>\w\<close> and \<open>.\<close> (no \<open>s\<close> flag: every unit but a line terminator).\<close>

definition digit :: cls where
  "digit = Pos [(48, 57)]"

definition space_ranges :: "(cu \<times> cu) list" where
  "space_ranges = [(9, 13), (32, 32), (160, 160), (5760, 5760), (8192, 8202),
     (8232, 8233), (8239, 8239), (8287, 8287), (12288, 12288), (65279, 65279)]"

definition space :: cls where
  "space = Pos space_ranges"

definition word :: cls where
  "word = Pos [(48, 57), (65, 90), (95, 95), (97, 122)]"

definition dot :: cls where
  "dot = Neg [(10, 10), (13, 13), (8232, 8233)]"

definition one :: "cu \<Rightarrow> cls" where
  "one c = Pos [(c, c)]"

text \<open>
  Under the \<open>i\<close> flag (without \<open>u\<close>) an ASCII letter of the pattern matches its two
  ASCII cases only: canonicalisation never maps a non-ASCII unit to an ASCII one.
\<close>

definition both_cases :: "cu \<Rightarrow> cls" where
  "both_cases c =
     (if 65 \<le> c \<and> c \<le> 90 then Pos [(c, c), (c + 32, c + 32)]
      else if 97 \<le> c \<and> c \<le> 122 then Pos [(c - 32, c - 32), (c, c)]
      else Pos [(c, c)])"

text \<open>
  The fragment of the pattern language the plugin uses. Quantifiers are applied to
  character classes only, which is all the source does (\<open>\d{1,2}\<close>, \<open>\s*\<close>,
  \<open>[^.]+\<close>, \<open>.*?\<close>); \<open>Rep\<close> is greedy, \<open>Lazy\<close> is not. \<open>Grp n r\<close> is the
  \<open>n\<close>-th capturing group.
\<close>

datatype re =
    Chr cls
  | Rep cls nat "nat option"
  | Lazy cls nat "nat option"
  | Cat re re
  | Alt re re
  | Grp nat re
  | Eps
  | Bol
  | Eol
  | Wordb
  | NotBehind cls
  | NotAhead cls

fun seq :: "re list \<Rightarrow> re" where
  "seq [] = Eps"
| "seq [r] = r"
| "seq (r # rs) = Cat r (seq rs)"

fun alts :: "re list \<Rightarrow> re" where
  "alts [] = Eps"
| "alts [r] = r"
| "alts (r # rs) = Alt r (alts rs)"

definition lit :: "jstring \<Rightarrow> re" where
  "lit s = seq (map (\<lambda>c. Chr (one c)) s)"

definition lit_i :: "jstring \<Rightarrow> re" where
  "lit_i s = seq (map (\<lambda>c. Chr (both_cases c)) s)"

definition opt :: "re \<Rightarrow> re" where
  "opt r = Alt r Eps"

text \<open>
  A matcher state: the captures so far, the input before the current position (reversed,
  for look-behind and \<open>\b\<close>) and the input from the current position on.
\<close>

type_synonym mstate = "(nat \<times> jstring) list \<times> jstring \<times> jstring"

definition run_len :: "cls \<Rightarrow> nat option \<Rightarrow> jstring \<Rightarrow> nat" where
  "run_len k hi xs =
     (let n = length (takeWhile (cls_ok k) xs)
      in case hi of None \<Rightarrow> n | Some h \<Rightarrow> min h n)"

definition advance :: "mstate \<Rightarrow> nat \<Rightarrow> mstate" where
  "advance s j = (case s of (g, p, xs) \<Rightarrow> (g, rev (take j xs) @ p, drop j xs))"

definition is_word_at :: "jstring \<Rightarrow> bool" where
  "is_word_at xs = (case xs of [] \<Rightarrow> False | x # _ \<Rightarrow> cls_ok word x)"

text \<open>
  \<open>steps r s\<close> lists every way \<open>r\<close> can match at state \<open>s\<close>, in the order in which a
  backtracking matcher tries them; the head of the list is the match the engine reports.
\<close>

fun steps :: "re \<Rightarrow> mstate \<Rightarrow> mstate list" where
  "steps (Chr k) (g, p, xs) =
     (case xs of [] \<Rightarrow> [] | x # t \<Rightarrow> if cls_ok k x then [(g, x # p, t)] else [])"
| "steps (Rep k lo hi) s =
     map (advance s) (rev [lo ..< Suc (run_len k hi (snd (snd s)))])"
| "steps (Lazy k lo hi) s =
     map (advance s) [lo ..< Suc (run_len k hi (snd (snd s)))]"
| "steps (Cat a b) s = concat (map (steps b) (steps a s))"
| "steps (Alt a b) s = steps a s @ steps b s"
| "steps (Grp n a) (g, p, xs) =
     map (\<lambda>(g', p', xs'). ((n, rev (take (length p' - length p) p')) # g', p', xs'))
       (steps a (g, p, xs))"
| "steps Eps s = [s]"
| "steps Bol (g, p, xs) = (if p = [] then [(g, p, xs)] else [])"
| "steps Eol (g, p, xs) = (if xs = [] then [(g, p, xs)] else [])"
| "steps Wordb (g, p, xs) = (if is_word_at p \<noteq> is_word_at xs then [(g, p, xs)] else [])"
| "steps (NotBehind k) (g, p, xs) =
     (case p of [] \<Rightarrow> [(g, p, xs)] | x # _ \<Rightarrow> if cls_ok k x then [] else [(g, p, xs)])"
| "steps (NotAhead k) (g, p, xs) =
     (case xs of [] \<Rightarrow> [(g, p, xs)] | x # _ \<Rightarrow> if cls_ok k x then [] else [(g, p, xs)])"

text \<open>
  The result of \<open>String.prototype.match\<close> without the \<open>g\<close> flag: the leftmost match.
  \<open>m_pre\<close> is the input before the match (reversed), \<open>m_rest\<close> the input behind it.
\<close>

record rmatch =
  m_pre :: jstring
  m_grp :: "(nat \<times> jstring) list"
  m_all :: jstring
  m_rest :: jstring

definition mk_match :: "jstring \<Rightarrow> mstate \<Rightarrow> rmatch" where
  "mk_match p s = (case s of (g, p', xs') \<Rightarrow>
     \<lparr>m_pre = p, m_grp = g, m_all = rev (take (length p' - length p) p'), m_rest = xs'\<rparr>)"

fun search :: "re \<Rightarrow> jstring \<Rightarrow> jstring \<Rightarrow> rmatch option" where
  "search r p [] = (case steps r ([], p, []) of [] \<Rightarrow> None | s # _ \<Rightarrow> Some (mk_match p s))"
| "search r p (x # t) =
     (case steps r ([], p, x # t) of [] \<Rightarrow> search r (x # p) t | s # _ \<Rightarrow> Some (mk_match p s))"

definition re_match :: "re \<Rightarrow> jstring \<Rightarrow> rmatch option" where
  "re_match r s = search r [] s"

definition re_test :: "re \<Rightarrow> jstring \<Rightarrow> bool" where
  "re_test r s = (re_match r s \<noteq> None)"

definition group :: "rmatch \<Rightarrow> nat \<Rightarrow> jstring" where
  "group m n = (case map_of (m_grp m) n of None \<Rightarrow> [] | Some s \<Rightarrow> s)"

text \<open>\<open>s.replace(r, rep)\<close> for a pattern without the \<open>g\<close> flag: the first match only.\<close>

definition replace_first :: "re \<Rightarrow> jstring \<Rightarrow> jstring \<Rightarrow> jstring" where
  "replace_first r rep s =
     (case re_match r s of None \<Rightarrow> s | Some m \<Rightarrow> rev (m_pre m) @ rep @ m_rest m)"

text \<open>
  \<open>s.replace(r, rep)\<close> with the \<open>g\<close> flag: scan from the left; after a non-empty match
  continue behind it, after an empty one copy one unit and continue.
\<close>

fun replace_from :: "re \<Rightarrow> jstring \<Rightarrow> jstring \<Rightarrow> jstring \<Rightarrow> jstring" where
  "replace_from r rep p [] = (case steps r ([], p, []) of [] \<Rightarrow> [] | s # _ \<Rightarrow> rep)"
| "replace_from r rep p (x # t) =
     (case steps r ([], p, x # t) of
        [] \<Rightarrow> x # replace_from r rep (x # p) t
      | (g, p', xs') # _ \<Rightarrow>
          if length xs' < length (x # t) then rep @ replace_from r rep p' xs'
          else rep @ x # replace_from r rep (x # p) t)"

definition replace_all :: "re \<Rightarrow> jstring \<Rightarrow> jstring \<Rightarrow> jstring" where
  "replace_all r rep s = replace_from r rep [] s"

text \<open>\<open>String.prototype.trim\<close>: white space and line terminators, the set of \<open>\s\<close>.\<close>

definition trim :: "jstring \<Rightarrow> jstring" where
  "trim s = rev (dropWhile (cls_ok space) (rev (dropWhile (cls_ok space) s)))"

text \<open>
  A number of the host language as far as the plugin computes one: an integer or
  \<open>NaN\<close>. \<open>parseInt\<close> reads the decimal digits at the start of its argument, which in
  every call of the plugin is a captured run of digits.
\<close>

datatype jsnum = NaN | Num int

definition dec :: "jstring \<Rightarrow> int" where
  "dec s = foldl (\<lambda>a c. 10 * a + (c - 48)) 0 s"

definition parseInt :: "jstring \<Rightarrow> jsnum" where
  "parseInt s =
     (let ds = takeWhile (cls_ok digit) (dropWhile (cls_ok space) s)
      in if ds = [] then NaN else Num (dec ds))"

text \<open>\<open>a > n\<close> on numbers: false when \<open>a\<close> is \<open>NaN\<close>.\<close>

fun gt :: "jsnum \<Rightarrow> int \<Rightarrow> bool" where
  "gt NaN n = False"
| "gt (Num a) n = (n < a)"

text \<open>Truthiness of a possibly-null number: \<open>null\<close>, \<open>0\<close> and \<open>NaN\<close> are falsy.\<close>

fun truthy :: "jsnum option \<Rightarrow> bool" where
  "truthy None = False"
| "truthy (Some NaN) = False"
| "truthy (Some (Num n)) = (n \<noteq> 0)"


section \<open>ContentDetector\<close>

text \<open>
  \<open>toLowerCase\<close> depends on the Unicode tables of the runtime; the functions that call
  it take it as the parameter \<open>lower\<close>. \<open>ascii_lower\<close> is its restriction to ASCII,
  for evaluating concrete names.
\<close>

definition ascii_lower :: "jstring \<Rightarrow> jstring" where
  "ascii_lower s = map (\<lambda>c. if 65 \<le> c \<and> c \<le> 90 then c + 32 else c) s"

record item =
  name :: jstring
  is_dir :: bool
  sign :: "jstring option"
  url :: "jstring option"

record detector_config =
  videoExtensions :: "jstring list"

definition default_config :: detector_config where
  "default_config = \<lparr>videoExtensions = map js [''.mp4'', ''.mkv'', ''.avi'', ''.mov'',
     ''.wmv'', ''.flv'', ''.webm'', ''.m4v'', ''.ts'', ''.m2ts'']\<rparr>"

text \<open>\<open>/\.[^.]+$/\<close>\<close>

definition ext_re :: re where
  "ext_re = seq [Chr (one 46), Rep (Neg [(46, 46)]) 1 None, Eol]"

definition getFileExtension :: "(jstring \<Rightarrow> jstring) \<Rightarrow> jstring \<Rightarrow> jstring" where
  "getFileExtension lower filename =
     (case re_match ext_re filename of None \<Rightarrow> [] | Some m \<Rightarrow> lower (m_all m))"

definition isVideoFile :: "detector_config \<Rightarrow> (jstring \<Rightarrow> jstring) \<Rightarrow> jstring \<Rightarrow> bool" where
  "isVideoFile cfg lower filename =
     (getFileExtension lower filename \<in> set (videoExtensions cfg))"

subsection \<open>extractSeasonEpisode\<close>

text \<open>The CJK units of the patterns: U+7B2C, U+5B63 and U+96C6.\<close>

definition cjk_di :: cu where "cjk_di = 31532"
definition cjk_ji :: cu where "cjk_ji = 23395"
definition cjk_jj :: cu where "cjk_jj = 38598"

definition d12 :: re where
  "d12 = Rep digit 1 (Some 2)"

text \<open>
  \<open>/S(\d{1,2})E(\d{1,2})/i\<close>, the pattern with the CJK season and episode markers,
  \<open>/Season\s*(\d{1,2})\s*Episode\s*(\d{1,2})/i\<close>,
  \<open>/(?<!\d)(\d{1,2})x(\d{1,2})(?!\d)/\<close> and \<open>/\[(\d{1,2})\]\[(\d{1,2})\]/\<close>, in this order.
\<close>

definition se_pattern :: re where
  "se_pattern = seq [lit_i (js ''S''), Grp 1 d12, lit_i (js ''E''), Grp 2 d12]"

definition cjk_se_pattern :: re where
  "cjk_se_pattern =
     seq [Chr (one cjk_di), Grp 1 d12, Chr (one cjk_ji), Chr (one cjk_di), Grp 2 d12,
          Chr (one cjk_jj)]"

definition season_episode_pattern :: re where
  "season_episode_pattern =
     seq [lit_i (js ''Season''), Rep space 0 None, Grp 1 d12, Rep space 0 None,
          lit_i (js ''Episode''), Rep space 0 None, Grp 2 d12]"

definition x_pattern :: re where
  "x_pattern = seq [NotBehind digit, Grp 1 d12, Chr (one 120), Grp 2 d12, NotAhead digit]"

definition bracket_pattern :: re where
  "bracket_pattern =
     seq [Chr (one 91), Grp 1 d12, Chr (one 93), Chr (one 91), Grp 2 d12, Chr (one 93)]"

definition patterns :: "re list" where
  "patterns =
     [se_pattern, cjk_se_pattern, season_episode_pattern, x_pattern, bracket_pattern]"

text \<open>\<open>/E(\d{1,2})/i\<close>, the CJK episode marker, \<open>/Episode\s*(\d{1,2})/i\<close>.\<close>

definition episodeOnlyPatterns :: "re list" where
  "episodeOnlyPatterns =
     [seq [lit_i (js ''E''), Grp 1 d12],
      seq [Chr (one cjk_di), Grp 1 d12, Chr (one cjk_jj)],
      seq [lit_i (js ''Episode''), Rep space 0 None, Grp 1 d12]]"

record season_episode =
  se_season :: "jsnum option"
  se_episode :: "jsnum option"

text \<open>The second loop: an episode above 200 makes the loop go on to the next pattern.\<close>

fun episode_only_loop :: "re list \<Rightarrow> jstring \<Rightarrow> season_episode" where
  "episode_only_loop [] filename = \<lparr>se_season = None, se_episode = None\<rparr>"
| "episode_only_loop (pat # pats) filename =
     (case re_match pat filename of
        None \<Rightarrow> episode_only_loop pats filename
      | Some m \<Rightarrow>
          let episode = parseInt (group m 1)
          in if gt episode 200 then episode_only_loop pats filename
             else \<lparr>se_season = None, se_episode = Some episode\<rparr>)"

text \<open>
  The first loop: a season above 50 or an episode above 200 makes the loop go on to
  the next pattern; when no pattern is left the episode-only patterns are tried.
\<close>

fun season_episode_loop :: "re list \<Rightarrow> jstring \<Rightarrow> season_episode" where
  "season_episode_loop [] filename = episode_only_loop episodeOnlyPatterns filename"
| "season_episode_loop (pat # pats) filename =
     (case re_match pat filename of
        None \<Rightarrow> season_episode_loop pats filename
      | Some m \<Rightarrow>
          let season = parseInt (group m 1); episode = parseInt (group m 2)
          in if gt season 50 \<or> gt episode 200 then season_episode_loop pats filename
             else \<lparr>se_season = Some season, se_episode = Some episode\<rparr>)"

definition extractSeasonEpisode :: "jstring \<Rightarrow> season_episode" where
  "extractSeasonEpisode filename = season_episode_loop patterns filename"

subsection \<open>extractTitle\<close>

definition year_re :: re where
  "year_re = seq [Chr (Pos [(40, 40), (65288, 65288)]), Rep digit 4 (Some 4),
                  Chr (Pos [(41, 41), (65289, 65289)])]"

definition resolution_re :: re where
  "resolution_re = seq [Rep digit 3 (Some 4), Chr (Pos [(112, 112), (80, 80)])]"

definition x26_re :: re where
  "x26_re = seq [Chr (Pos [(120, 120), (88, 88)]), lit (js ''26''), Chr (Pos [(52, 53)])]"

definition h26_re :: re where
  "h26_re = seq [Chr (Pos [(104, 104), (72, 72)]), lit (js ''26''), Chr (Pos [(52, 53)])]"

definition audio_re :: re where
  "audio_re = alts (map (\<lambda>w. lit_i (js w)) [''AAC'', ''AC3'', ''DTS'', ''TrueHD''])"

definition source_re :: re where
  "source_re = alts (map (\<lambda>w. lit_i (js w)) [''BluRay'', ''WEB-DL'', ''HDTV'', ''DVDRip''])"

definition se_token_re :: re where
  "se_token_re = seq [lit_i (js ''S''), d12, lit_i (js ''E''), d12]"

definition cjk_se_token_re :: re where
  "cjk_se_token_re =
     seq [Chr (one cjk_di), d12, Chr (one cjk_ji), Chr (one cjk_di), d12, Chr (one cjk_jj)]"

definition separators_re :: re where
  "separators_re = Rep (Pos [(46, 46), (45, 45), (95, 95)]) 1 None"

definition spaces_re :: re where
  "spaces_re = Rep space 1 None"

text \<open>The removals of \<open>extractTitle\<close> between the extension and the separators, in order.\<close>

definition token_res :: "re list" where
  "token_res = [year_re, resolution_re, x26_re, h26_re, audio_re, source_re,
                se_token_re, cjk_se_token_re]"

definition extractTitle :: "jstring \<Rightarrow> jstring" where
  "extractTitle filename =
     (let title = replace_first ext_re [] filename;
          title = foldl (\<lambda>t r. replace_all r [] t) title token_res;
          title = replace_all separators_re (js '' '') title;
          title = trim (replace_all spaces_re (js '' '') title)
      in title)"

subsection \<open>analyzeFile\<close>

datatype ftype = Movie | Episode | Unknown

record file_analysis =
  fa_type :: ftype
  fa_title :: jstring
  fa_season :: "jsnum option"
  fa_episode :: "jsnum option"
  fa_file :: item

definition analyzeFile :: "item \<Rightarrow> file_analysis" where
  "analyzeFile file =
     (let filename = name file;
          seasonEpisode = extractSeasonEpisode filename
      in if truthy (se_season seasonEpisode) \<or> truthy (se_episode seasonEpisode)
         then \<lparr>fa_type = Episode, fa_title = extractTitle filename,
               fa_season = se_season seasonEpisode, fa_episode = se_episode seasonEpisode,
               fa_file = file\<rparr>
         else \<lparr>fa_type = Movie, fa_title = extractTitle filename,
               fa_season = None, fa_episode = None, fa_file = file\<rparr>)"


subsection \<open>matchSeasonFolder and analyzeDirectory\<close>

text \<open>
  \<open>/^S(\d{1,2})$/i\<close>, \<open>/^Season\s*(\d{1,2})$/i\<close>, the CJK season marker between
  \<open>^\<close> and \<open>$\<close>, and \<open>/^S(\d{1,2})\s/i\<close>.
\<close>

definition seasonFolderPatterns :: "re list" where
  "seasonFolderPatterns =
     [seq [Bol, lit_i (js ''S''), Grp 1 d12, Eol],
      seq [Bol, lit_i (js ''Season''), Rep space 0 None, Grp 1 d12, Eol],
      seq [Bol, Chr (one cjk_di), Grp 1 d12, Chr (one cjk_ji), Eol],
      seq [Bol, lit_i (js ''S''), Grp 1 d12, Chr space]]"

record season_folder =
  sf_season :: jsnum
  sf_original :: jstring

fun season_folder_loop :: "re list \<Rightarrow> jstring \<Rightarrow> season_folder option" where
  "season_folder_loop [] folderName = None"
| "season_folder_loop (pat # pats) folderName =
     (case re_match pat folderName of
        None \<Rightarrow> season_folder_loop pats folderName
      | Some m \<Rightarrow> Some \<lparr>sf_season = parseInt (group m 1), sf_original = folderName\<rparr>)"

definition matchSeasonFolder :: "jstring \<Rightarrow> season_folder option" where
  "matchSeasonFolder folderName = season_folder_loop seasonFolderPatterns folderName"

datatype ptype = pt_unknown | pt_movie | pt_tv | pt_mixed

record dir_analysis =
  da_movies :: "item list"
  da_tvShows :: "item list"
  da_mixed :: "item list"
  da_subdirectories :: "item list"
  da_files :: "item list"
  da_primaryType :: ptype

text \<open>The state of the loop of \<open>analyzeDirectory\<close>: the analysis and the three counters.\<close>

record dir_loop =
  analysis :: dir_analysis
  movieCount :: nat
  tvCount :: nat
  videoFileCount :: nat

definition analyzeDirectory_step ::
  "detector_config \<Rightarrow> (jstring \<Rightarrow> jstring) \<Rightarrow> dir_loop \<Rightarrow> item \<Rightarrow> dir_loop" where
  "analyzeDirectory_step cfg lower st it =
     (let a = analysis st in
      if is_dir it then
        (let a = a\<lparr>da_subdirectories := da_subdirectories a @ [it]\<rparr> in
         if matchSeasonFolder (name it) \<noteq> None
         then st\<lparr>tvCount := tvCount st + 1,
                 analysis := a\<lparr>da_tvShows := da_tvShows a @ [it]\<rparr>\<rparr>
         else st\<lparr>movieCount := movieCount st + 1,
                 analysis := a\<lparr>da_movies := da_movies a @ [it]\<rparr>\<rparr>)
      else
        (let st = st\<lparr>analysis := a\<lparr>da_files := da_files a @ [it]\<rparr>\<rparr> in
         if isVideoFile cfg lower (name it) then
           (let st = st\<lparr>videoFileCount := videoFileCount st + 1\<rparr>;
                fileAnalysis = analyzeFile it
            in if fa_type fileAnalysis = Movie then st\<lparr>movieCount := movieCount st + 1\<rparr>
               else if fa_type fileAnalysis = Episode then st\<lparr>tvCount := tvCount st + 1\<rparr>
               else st)
         else st))"

definition dir_loop_init :: dir_loop where
  "dir_loop_init =
     \<lparr>analysis = \<lparr>da_movies = [], da_tvShows = [], da_mixed = [], da_subdirectories = [],
                   da_files = [], da_primaryType = pt_unknown\<rparr>,
      movieCount = 0, tvCount = 0, videoFileCount = 0\<rparr>"

definition primaryType_of :: "nat \<Rightarrow> nat \<Rightarrow> ptype" where
  "primaryType_of mc tc =
     (if mc > tc then pt_movie
      else if tc > mc then pt_tv
      else if mc > 0 \<or> tc > 0 then pt_mixed
      else pt_unknown)"

definition analyzeDirectory ::
  "detector_config \<Rightarrow> (jstring \<Rightarrow> jstring) \<Rightarrow> item list \<Rightarrow> dir_analysis" where
  "analyzeDirectory cfg lower items =
     (let st = foldl (analyzeDirectory_step cfg lower) dir_loop_init items
      in (analysis st)\<lparr>da_primaryType := primaryType_of (movieCount st) (tvCount st)\<rparr>)"

section \<open>PathAnalyzer\<close>

subsection \<open>_analyzeFileName and _extractTitle\<close>

text \<open>
  The methods of PathAnalyzer are written without their leading underscore. Where a name
  is already taken by a method of ContentDetector (\<open>extractTitle\<close>, \<open>isVideoFile\<close>) or would
  be ambiguous, the PathAnalyzer one carries the prefix \<open>pa_\<close>; its inline regular
  expressions are named after the variable that receives their match.
\<close>

definition ascii_upper :: "jstring \<Rightarrow> jstring" where
  "ascii_upper s = map (\<lambda>c. if 97 \<le> c \<and> c \<le> 122 then c - 32 else c) s"

definition words_i :: "string list \<Rightarrow> re" where
  "words_i ws = alts (map (\<lambda>w. lit_i (js w)) ws)"

text \<open>\<open>/\b(4K|2160p|1080p|720p|480p|HD|UHD)\b/i\<close>\<close>

definition quality_re :: re where
  "quality_re =
     seq [Wordb, Grp 1 (words_i [''4K'', ''2160p'', ''1080p'', ''720p'', ''480p'', ''HD'', ''UHD'']),
          Wordb]"

text \<open>\<open>/\.(mp4|mkv|avi|mov|wmv|flv|webm|m4v|ts|m2ts)$/i\<close>\<close>

definition format_re :: re where
  "format_re =
     seq [Chr (one 46),
          Grp 1 (words_i [''mp4'', ''mkv'', ''avi'', ''mov'', ''wmv'', ''flv'', ''webm'', ''m4v'',
                          ''ts'', ''m2ts'']),
          Eol]"

text \<open>\<open>/\b(19|20)\d{2}\b/\<close>\<close>

definition pa_year_re :: re where
  "pa_year_re = seq [Wordb, Grp 1 (Alt (lit (js ''19'')) (lit (js ''20''))),
                     Rep digit 2 (Some 2), Wordb]"

text \<open>\<open>/S(\d{1,2})E(\d{1,3})/i\<close>\<close>

definition pa_se_re :: re where
  "pa_se_re = seq [lit_i (js ''S''), Grp 1 d12, lit_i (js ''E''), Grp 2 (Rep digit 1 (Some 3))]"

text \<open>\<open>/(?:EP?|X)(\d{1,3})(?:Y)?/i\<close> with the CJK ordinal and episode markers for X and Y.\<close>

definition pa_episode_re :: re where
  "pa_episode_re =
     seq [Alt (Cat (lit_i (js ''E'')) (opt (lit_i (js ''P'')))) (Chr (one cjk_di)),
          Grp 1 (Rep digit 1 (Some 3)), opt (Chr (one cjk_jj))]"

text \<open>
  \<open>/\b(4K|2160p|1080p|720p|480p|HD|UHD|BluRay|WEB-DL|BDRip|DVDRip)\b/gi\<close>,
  \<open>/\b(x264|x265|H264|H265|HEVC|AVC)\b/gi\<close>, the year pattern with \<open>g\<close>,
  \<open>/\b(S\d{1,2}E\d{1,3}|Season\s*\d+|X\d+S|X\d+Y|EP?\d+)\b/gi\<close> with the CJK ordinal,
  season and episode markers for X, S and Y, and the bracket pattern
  \<open>/[\[L\(](.*?)[\]R\)]/g\<close> with the CJK lenticular brackets for L and R.
\<close>

definition pa_quality_re :: re where
  "pa_quality_re =
     seq [Wordb, Grp 1 (words_i [''4K'', ''2160p'', ''1080p'', ''720p'', ''480p'', ''HD'', ''UHD'',
                                 ''BluRay'', ''WEB-DL'', ''BDRip'', ''DVDRip'']), Wordb]"

definition pa_codec_re :: re where
  "pa_codec_re =
     seq [Wordb, Grp 1 (words_i [''x264'', ''x265'', ''H264'', ''H265'', ''HEVC'', ''AVC'']), Wordb]"

definition pa_token_re :: re where
  "pa_token_re =
     seq [Wordb,
          Grp 1 (alts
            [seq [lit_i (js ''S''), d12, lit_i (js ''E''), Rep digit 1 (Some 3)],
             seq [lit_i (js ''Season''), Rep space 0 None, Rep digit 1 None],
             seq [Chr (one cjk_di), Rep digit 1 None, Chr (one cjk_ji)],
             seq [Chr (one cjk_di), Rep digit 1 None, Chr (one cjk_jj)],
             seq [lit_i (js ''E''), opt (lit_i (js ''P'')), Rep digit 1 None]]),
          Wordb]"

definition pa_bracket_re :: re where
  "pa_bracket_re =
     seq [Chr (Pos [(91, 91), (12304, 12304), (40, 40)]), Grp 1 (Lazy dot 0 None),
          Chr (Pos [(93, 93), (12305, 12305), (41, 41)])]"

definition pa_clean :: "jstring \<Rightarrow> jstring" where
  "pa_clean filename =
     (let title = replace_first ext_re [] filename;
          title = replace_all pa_quality_re [] title;
          title = replace_all pa_codec_re [] title;
          title = replace_all pa_year_re [] title;
          title = replace_all pa_token_re [] title;
          title = replace_all pa_bracket_re [] title;
          title = replace_all separators_re (js '' '') title
      in trim (replace_all spaces_re (js '' '') title))"

text \<open>\<open>return title || filename\<close>: the empty string is falsy.\<close>

definition pa_extractTitle :: "jstring \<Rightarrow> jstring" where
  "pa_extractTitle filename =
     (let title = pa_clean filename in if title = [] then filename else title)"

record metadata =
  md_filename :: jstring
  md_type :: ftype
  md_title :: jstring
  md_season :: "jsnum option"
  md_episode :: "jsnum option"
  md_year :: "jsnum option"
  md_quality :: "jstring option"
  md_format :: "jstring option"

definition analyzeFileName :: "jstring \<Rightarrow> metadata" where
  "analyzeFileName filename =
     (let metadata = \<lparr>md_filename = filename, md_type = Unknown, md_title = [],
                       md_season = None, md_episode = None, md_year = None,
                       md_quality = None, md_format = None\<rparr>;
          metadata = (case re_match quality_re filename of
                        None \<Rightarrow> metadata
                      | Some m \<Rightarrow> metadata\<lparr>md_quality := Some (group m 1)\<rparr>);
          metadata = (case re_match format_re filename of
                        None \<Rightarrow> metadata
                      | Some m \<Rightarrow> metadata\<lparr>md_format := Some (ascii_upper (group m 1))\<rparr>);
          metadata = (case re_match pa_year_re filename of
                        None \<Rightarrow> metadata
                      | Some m \<Rightarrow> metadata\<lparr>md_year := Some (parseInt (m_all m))\<rparr>)
      in case re_match pa_se_re filename of
           Some m \<Rightarrow>
             metadata\<lparr>md_type := Episode, md_season := Some (parseInt (group m 1)),
                      md_episode := Some (parseInt (group m 2)),
                      md_title := pa_extractTitle filename\<rparr>
         | None \<Rightarrow>
             (case re_match pa_episode_re filename of
                Some m \<Rightarrow>
                  metadata\<lparr>md_type := Episode, md_episode := Some (parseInt (group m 1)),
                           md_title := pa_extractTitle filename\<rparr>
              | None \<Rightarrow> metadata\<lparr>md_type := Movie, md_title := pa_extractTitle filename\<rparr>))"

subsection \<open>Directory types\<close>

datatype role = Seasons | Movies | TvShows | Documentaries | Anime | Content

datatype dir_type =
  movie_collection | movie_library | tv_season | tv_show | mixed_content | content_library
  | unknown_dir

record pa_config =
  maxDepth :: nat
  ignoreDirs :: "jstring list"
  specialDirs :: "(role \<times> re) list"

text \<open>
  The default \<open>specialDirs\<close>: \<open>/^(Season|S|X)[\s\._-]*(\d{1,2})(?:Y)?$/i\<close> with the CJK
  ordinal and season markers for X and Y, \<open>/^(Movies?|..)$/i\<close>,
  \<open>/^(TV|Television|Series|..)$/i\<close>, \<open>/^(Documentaries?|..)$/i\<close> and \<open>/^(Anime|..)$/i\<close>,
  each with its CJK alternatives.
\<close>

definition default_specialDirs :: "(role \<times> re) list" where
  "default_specialDirs =
     [(Seasons,
       seq [Bol, Grp 1 (alts [lit_i (js ''Season''), lit_i (js ''S''), Chr (one cjk_di)]),
            Rep (Pos (space_ranges @ [(46, 46), (95, 95), (45, 45)])) 0 None,
            Grp 2 d12, opt (Chr (one cjk_ji)), Eol]),
      (Movies,
       seq [Bol, Grp 1 (alts [seq [lit_i (js ''Movie''), opt (lit_i (js ''s''))],
                              lit [30005, 24433], lit [24433, 29255]]), Eol]),
      (TvShows,
       seq [Bol, Grp 1 (alts [lit_i (js ''TV''), lit_i (js ''Television''), lit_i (js ''Series''),
                              lit [30005, 35270, 21095], lit [21095, 38598]]), Eol]),
      (Documentaries,
       seq [Bol, Grp 1 (alts [seq [lit_i (js ''Documentarie''), opt (lit_i (js ''s''))],
                              lit [32426, 24405, 29255]]), Eol]),
      (Anime,
       seq [Bol, Grp 1 (alts [lit_i (js ''Anime''), lit [21160, 28459], lit [21160, 30011]]),
            Eol])]"

definition default_pa_config :: pa_config where
  "default_pa_config =
     \<lparr>maxDepth = 10,
      ignoreDirs = map js [''.DS_Store'', ''Thumbs.db'', ''@eaDir'', ''.@__thumb'', ''extras'',
        ''behind the scenes'', ''deleted scenes'', ''featurettes'', ''interviews'', ''scenes'',
        ''shorts'', ''trailers'', ''other'', ''sample'', ''samples''],
      specialDirs = default_specialDirs\<rparr>"

text \<open>\<open>String.prototype.includes\<close>\<close>

fun str_includes :: "jstring \<Rightarrow> jstring \<Rightarrow> bool" where
  "str_includes [] sub = (sub = [])"
| "str_includes (x # xs) sub = (take (length sub) (x # xs) = sub \<or> str_includes xs sub)"

definition shouldIgnoreDirectory ::
  "pa_config \<Rightarrow> (jstring \<Rightarrow> jstring) \<Rightarrow> jstring \<Rightarrow> bool" where
  "shouldIgnoreDirectory cfg lower dirName =
     list_ex (\<lambda>ignore. str_includes (lower dirName) (lower ignore)) (ignoreDirs cfg)"

fun classify_loop :: "(role \<times> re) list \<Rightarrow> jstring \<Rightarrow> role" where
  "classify_loop [] dirName = Content"
| "classify_loop ((type, pattern) # rest) dirName =
     (if re_test pattern dirName then type else classify_loop rest dirName)"

definition classifyDirectory :: "pa_config \<Rightarrow> jstring \<Rightarrow> role" where
  "classifyDirectory cfg dirName = classify_loop (specialDirs cfg) dirName"

record video_file =
  vf_item :: item
  vf_path :: jstring
  vf_metadata :: metadata

record subdir =
  sd_name :: jstring
  sd_path :: jstring
  sd_type :: role

record path_info =
  pi_path :: jstring
  pi_depth :: nat
  pi_type :: dir_type
  pi_items :: "item list"
  pi_videoFiles :: "video_file list"
  pi_subdirectories :: "subdir list"

definition analyzeDirectoryType :: "path_info \<Rightarrow> dir_type" where
  "analyzeDirectoryType pathInfo =
     (let videoFiles = pi_videoFiles pathInfo;
          subdirectories = pi_subdirectories pathInfo;
          movieFiles = filter (\<lambda>f. md_type (vf_metadata f) = Movie) videoFiles;
          episodeFiles = filter (\<lambda>f. md_type (vf_metadata f) = Episode) videoFiles
      in if length videoFiles > 0 \<and> length movieFiles > 0 \<and> length episodeFiles = 0
         then movie_collection
         else if length videoFiles > 0 \<and> length episodeFiles > 0 \<and> length movieFiles = 0
         then tv_season
         else if length videoFiles > 0 \<and> length movieFiles > 0 \<and> length episodeFiles > 0
         then mixed_content
         else if length subdirectories > 0 \<and> length videoFiles = 0 then
           (let seasonDirs = filter (\<lambda>d. sd_type d = Seasons) subdirectories;
                movieDirs = filter (\<lambda>d. sd_type d = Movies) subdirectories
            in if length seasonDirs > 0 then tv_show
               else if length movieDirs > 0 then movie_library
               else content_library)
         else unknown_dir)"

text \<open>
  \<open>_isVideoFile\<close>: the extension is cut from the lower-cased name at the index of the
  last dot of the original name; with no dot, \<open>substring(-1)\<close> is the whole name.
\<close>

fun lastIndexOf_from :: "nat \<Rightarrow> jstring \<Rightarrow> cu \<Rightarrow> nat option \<Rightarrow> nat option" where
  "lastIndexOf_from i [] c found = found"
| "lastIndexOf_from i (x # xs) c found =
     lastIndexOf_from (Suc i) xs c (if x = c then Some i else found)"

definition lastIndexOf :: "jstring \<Rightarrow> cu \<Rightarrow> nat option" where
  "lastIndexOf s c = lastIndexOf_from 0 s c None"

definition pa_isVideoFile :: "(jstring \<Rightarrow> jstring) \<Rightarrow> jstring \<Rightarrow> bool" where
  "pa_isVideoFile lower filename =
     (let ext = (case lastIndexOf filename 46 of
                   None \<Rightarrow> lower filename
                 | Some i \<Rightarrow> drop i (lower filename))
      in ext \<in> set (map js [''.mp4'', ''.mkv'', ''.avi'', ''.mov'', ''.wmv'', ''.flv'', ''.webm'',
                             ''.m4v'', ''.ts'', ''.m2ts'']))"

subsection \<open>The walk over the directory tree\<close>

text \<open>
  \<open>alistApi.listDirectory\<close> is a call to a stateful collaborator: given a path and the
  collaborator's state it throws (\<open>Inl\<close>) or returns the items, possibly \<open>null\<close>, and
  the next state.
\<close>

datatype error = Failure jstring

type_synonym 'st api = "jstring \<Rightarrow> 'st \<Rightarrow> (error + item list option) \<times> 'st"

text \<open>
  The part of the accumulator \<open>analysis\<close> that \<open>_analyzeRecursive\<close> writes: the three
  counters of \<open>statistics\<close>, the four \<open>categories\<close> and the \<open>pathMap\<close> in insertion order.
\<close>

record walk =
  totalDirectories :: nat
  totalFiles :: nat
  stat_maxDepth :: nat
  cat_movies :: "path_info list"
  cat_tvShows :: "path_info list"
  cat_mixed :: "path_info list"
  cat_unknown :: "path_info list"
  pathMap :: "(jstring \<times> path_info) list"

definition walk_init :: walk where
  "walk_init = \<lparr>totalDirectories = 0, totalFiles = 0, stat_maxDepth = 0, cat_movies = [],
                 cat_tvShows = [], cat_mixed = [], cat_unknown = [], pathMap = []\<rparr>"

text \<open>\<open>Map.prototype.set\<close> on a map kept in insertion order.\<close>

fun map_set :: "('k \<times> 'v) list \<Rightarrow> 'k \<Rightarrow> 'v \<Rightarrow> ('k \<times> 'v) list" where
  "map_set [] k v = [(k, v)]"
| "map_set ((k', v') # m) k v = (if k' = k then (k, v) # m else (k', v') # map_set m k v)"

definition categorizeDirectory :: "path_info \<Rightarrow> walk \<Rightarrow> walk" where
  "categorizeDirectory pathInfo a =
     (case pi_type pathInfo of
        movie_collection \<Rightarrow> a\<lparr>cat_movies := cat_movies a @ [pathInfo]\<rparr>
      | movie_library \<Rightarrow> a\<lparr>cat_movies := cat_movies a @ [pathInfo]\<rparr>
      | tv_season \<Rightarrow> a\<lparr>cat_tvShows := cat_tvShows a @ [pathInfo]\<rparr>
      | tv_show \<Rightarrow> a\<lparr>cat_tvShows := cat_tvShows a @ [pathInfo]\<rparr>
      | mixed_content \<Rightarrow> a\<lparr>cat_mixed := cat_mixed a @ [pathInfo]\<rparr>
      | _ \<Rightarrow> a\<lparr>cat_unknown := cat_unknown a @ [pathInfo]\<rparr>)"

definition child_path :: "jstring \<Rightarrow> jstring \<Rightarrow> jstring" where
  "child_path currentPath n = currentPath @ js ''/'' @ n"

text \<open>
  \<open>_analyzeRecursive\<close> and the loop over the items of one listing. The whole body is
  inside \<open>try\<close>; the only call in it that can throw is \<open>listDirectory\<close>, before anything is
  written, and the handler only logs.
\<close>

function analyzeRecursive ::
    "pa_config \<Rightarrow> (jstring \<Rightarrow> jstring) \<Rightarrow> 'st api \<Rightarrow> jstring \<Rightarrow> nat \<Rightarrow> walk \<times> 'st \<Rightarrow> walk \<times> 'st"
  and analyze_items ::
    "pa_config \<Rightarrow> (jstring \<Rightarrow> jstring) \<Rightarrow> 'st api \<Rightarrow> jstring \<Rightarrow> nat \<Rightarrow> item list \<Rightarrow>
     path_info \<times> walk \<times> 'st \<Rightarrow> path_info \<times> walk \<times> 'st"
where
  "analyzeRecursive cfg lower api currentPath depth (a, st) =
     (if depth > maxDepth cfg then (a, st)
      else case api currentPath st of
        (Inl err, st') \<Rightarrow> (a, st')
      | (Inr None, st') \<Rightarrow> (a, st')
      | (Inr (Some items), st') \<Rightarrow>
          if items = [] then (a, st')
          else
            (let a = a\<lparr>totalDirectories := totalDirectories a + 1,
                       stat_maxDepth := max (stat_maxDepth a) depth\<rparr>;
                 pathInfo = \<lparr>pi_path = currentPath, pi_depth = depth, pi_type = unknown_dir,
                             pi_items = [], pi_videoFiles = [], pi_subdirectories = []\<rparr>
             in case analyze_items cfg lower api currentPath depth items (pathInfo, a, st') of
                  (pathInfo, a, st'') \<Rightarrow>
                    (let pathInfo = pathInfo\<lparr>pi_type := analyzeDirectoryType pathInfo\<rparr>;
                         a = categorizeDirectory pathInfo a
                     in (a\<lparr>pathMap := map_set (pathMap a) currentPath pathInfo\<rparr>, st''))))"
| "analyze_items cfg lower api currentPath depth [] s = s"
| "analyze_items cfg lower api currentPath depth (it # items) (pathInfo, a, st) =
     (let itemPath = child_path currentPath (name it) in
      if is_dir it then
        (if shouldIgnoreDirectory cfg lower (name it)
         then analyze_items cfg lower api currentPath depth items (pathInfo, a, st)
         else
           (let pathInfo = pathInfo\<lparr>pi_subdirectories := pi_subdirectories pathInfo @
                  [\<lparr>sd_name = name it, sd_path = itemPath,
                    sd_type = classifyDirectory cfg (name it)\<rparr>]\<rparr>
            in case analyzeRecursive cfg lower api itemPath (depth + 1) (a, st) of
                 (a, st) \<Rightarrow> analyze_items cfg lower api currentPath depth items (pathInfo, a, st)))
      else
        (let pathInfo = pathInfo\<lparr>pi_items := pi_items pathInfo @ [it]\<rparr> in
         if pa_isVideoFile lower (name it)
         then analyze_items cfg lower api currentPath depth items
                (pathInfo\<lparr>pi_videoFiles := pi_videoFiles pathInfo @
                    [\<lparr>vf_item = it, vf_path = itemPath,
                      vf_metadata = analyzeFileName (name it)\<rparr>]\<rparr>,
                 a\<lparr>totalFiles := totalFiles a + 1\<rparr>, st)
         else analyze_items cfg lower api currentPath depth items (pathInfo, a, st)))"
  by pat_completeness auto
termination
  by (relation "measures
        [\<lambda>x. case x of
               Inl (cfg, lower, api, p, depth, s) \<Rightarrow> Suc (maxDepth cfg) - depth
             | Inr (cfg, lower, api, p, depth, items, s) \<Rightarrow> maxDepth cfg - depth,
         \<lambda>x. case x of
               Inl (cfg, lower, api, p, depth, s) \<Rightarrow> 0
             | Inr (cfg, lower, api, p, depth, items, s) \<Rightarrow> Suc (length items)]")
     auto

datatype tree_structure = st_mixed | st_categorized | st_movies_only | st_tv_only | st_unstructured | st_empty

definition determineStructureType :: "walk \<Rightarrow> tree_structure" where
  "determineStructureType a =
     (if length (cat_mixed a) > 0 then st_mixed
      else if length (cat_movies a) > 0 \<and> length (cat_tvShows a) > 0 then st_categorized
      else if length (cat_movies a) > 0 \<and> length (cat_tvShows a) = 0 then st_movies_only
      else if length (cat_tvShows a) > 0 \<and> length (cat_movies a) = 0 then st_tv_only
      else if length (cat_unknown a) > 0 then st_unstructured
      else st_empty)"

text \<open>
  \<open>analyzePath\<close>: the walk from the root at depth 0 and the verdict on the whole tree
  (the average of \<open>_calculateStatistics\<close>, a floating-point quotient, is left out).
\<close>

definition analyzePath ::
  "pa_config \<Rightarrow> (jstring \<Rightarrow> jstring) \<Rightarrow> 'st api \<Rightarrow> jstring \<Rightarrow> 'st \<Rightarrow> (walk \<times> tree_structure) \<times> 'st" where
  "analyzePath cfg lower api rootPath st =
     (case analyzeRecursive cfg lower api rootPath 0 (walk_init, st) of
        (a, st') \<Rightarrow> ((a, determineStructureType a), st'))"

section \<open>SmartDetector\<close>

subsection \<open>Candidates\<close>

text \<open>
  The objects of the plugin are bags of fields; a field that an object may lack is an
  \<open>option\<close>, \<open>None\<close> standing for \<open>undefined\<close>. Payload that no decision reads
  (overview, poster, ratings) is left out.
\<close>

record file_ref =
  fr_name :: jstring
  fr_path :: jstring
  fr_sign :: "jstring option"
  fr_url :: "jstring option"
  fr_download_url :: "jstring option"

record episode_rec =
  episode_number :: "jsnum option"
  ep_episode :: "jsnum option"
  ep_season :: "jsnum option"
  ep_name :: "jstring option"
  ep_title :: "jstring option"
  ep_url :: "jstring option"
  ep_download_url :: "jstring option"
  ep_path :: jstring
  ep_file :: "file_ref option"

record season_rec =
  sn_season :: "jsnum option"
  sn_season_number :: "jsnum option"
  sn_episodes :: "episode_rec list option"

record tv_show =
  ts_title :: jstring
  ts_path :: "jstring option"
  ts_seasons :: "season_rec list"

record movie_cand =
  mc_title :: jstring
  mc_path :: jstring
  mc_files :: "file_ref list"
  mc_seasons :: "season_rec list option"

text \<open>\<open>a || b\<close> on a possibly-undefined string and on a possibly-null number.\<close>

definition str_or :: "jstring option \<Rightarrow> jstring \<Rightarrow> jstring" where
  "str_or a b = (case a of None \<Rightarrow> b | Some s \<Rightarrow> if s = [] then b else s)"

fun num_or :: "jsnum option \<Rightarrow> int \<Rightarrow> int" where
  "num_or None d = d"
| "num_or (Some NaN) d = d"
| "num_or (Some (Num n)) d = (if n = 0 then d else n)"

text \<open>
  \<open>Array.prototype.sort\<close> with a comparator \<open>(a, b) => key(a) - key(b)\<close>: a stable sort
  by the key.
\<close>

definition sort_by_key :: "('a \<Rightarrow> int) \<Rightarrow> 'a list \<Rightarrow> 'a list" where
  "sort_by_key k xs = sort_key k xs"

definition direct_url :: "jstring \<Rightarrow> jstring \<Rightarrow> jstring option \<Rightarrow> jstring" where
  "direct_url base path sg =
     base @ js ''/d'' @ path @
       (case sg of None \<Rightarrow> [] | Some s \<Rightarrow> if s = [] then [] else js ''?sign='' @ s)"

subsection \<open>_getSeasonEpisodes\<close>

text \<open>
  One round of the loop over the listing: a video file with a truthy episode number gets
  that number, any other video file gets the next ordinal.
\<close>

definition season_episode_step ::
  "detector_config \<Rightarrow> (jstring \<Rightarrow> jstring) \<Rightarrow> jstring \<Rightarrow> jstring \<Rightarrow> episode_rec list \<Rightarrow> item
   \<Rightarrow> episode_rec list" where
  "season_episode_step cfg lower baseUrl seasonPath episodes it =
     (if \<not> is_dir it \<and> isVideoFile cfg lower (name it) then
        (let episodeInfo = extractSeasonEpisode (name it);
             title = extractTitle (name it);
             link = str_or (url it) (direct_url baseUrl (child_path seasonPath (name it)) (sign it))
         in if truthy (se_episode episodeInfo) then
              episodes @ [\<lparr>episode_number = se_episode episodeInfo, ep_episode = None,
                            ep_season = None, ep_name = Some title, ep_title = None,
                            ep_url = Some link, ep_download_url = Some link,
                            ep_path = child_path seasonPath (name it), ep_file = None\<rparr>]
            else
              episodes @ [\<lparr>episode_number = Some (Num (int (length episodes) + 1)),
                            ep_episode = None, ep_season = None,
                            ep_name = Some (replace_first ext_re [] (name it)), ep_title = None,
                            ep_url = Some link, ep_download_url = Some link,
                            ep_path = child_path seasonPath (name it), ep_file = None\<rparr>])
      else episodes)"

text \<open>
  The comparator of the final sort reads the field \<open>episode\<close> of the episode objects,
  which the loop above never sets.
\<close>

definition getSeasonEpisodes ::
  "detector_config \<Rightarrow> (jstring \<Rightarrow> jstring) \<Rightarrow> jstring \<Rightarrow> 'st api \<Rightarrow> jstring \<Rightarrow> 'st
   \<Rightarrow> episode_rec list \<times> 'st" where
  "getSeasonEpisodes cfg lower baseUrl api seasonPath st =
     (case api seasonPath st of
        (Inl err, st') \<Rightarrow> ([], st')
      | (Inr None, st') \<Rightarrow> ([], st')
      | (Inr (Some items), st') \<Rightarrow>
          (sort_by_key (\<lambda>e. num_or (ep_episode e) 0)
             (foldl (season_episode_step cfg lower baseUrl seasonPath) [] items), st'))"

subsection \<open>_analyzeSubdirectory\<close>

definition getMovieFiles ::
  "detector_config \<Rightarrow> (jstring \<Rightarrow> jstring) \<Rightarrow> jstring \<Rightarrow> 'st api \<Rightarrow> jstring \<Rightarrow> 'st
   \<Rightarrow> file_ref list \<times> 'st" where
  "getMovieFiles cfg lower baseUrl api moviePath st =
     (case api moviePath st of
        (Inl err, st') \<Rightarrow> ([], st')
      | (Inr None, st') \<Rightarrow> ([], st')
      | (Inr (Some items), st') \<Rightarrow>
          (map (\<lambda>it.
                  let link = str_or (url it)
                               (direct_url baseUrl (child_path moviePath (name it)) (sign it))
                  in \<lparr>fr_name = name it, fr_path = child_path moviePath (name it),
                      fr_sign = sign it, fr_url = Some link, fr_download_url = Some link\<rparr>)
             (filter (\<lambda>it. \<not> is_dir it \<and> isVideoFile cfg lower (name it)) items), st'))"

datatype sub_result = MovieResult movie_cand | TvResult tv_show

definition analyzeSubdirectory ::
  "detector_config \<Rightarrow> (jstring \<Rightarrow> jstring) \<Rightarrow> jstring \<Rightarrow> 'st api \<Rightarrow> item \<Rightarrow> jstring \<Rightarrow> 'st
   \<Rightarrow> sub_result \<times> 'st" where
  "analyzeSubdirectory cfg lower baseUrl api it parentPath st =
     (let fullPath = child_path parentPath (name it) in
      case matchSeasonFolder (name it) of
        Some seasonMatch \<Rightarrow>
          (case getSeasonEpisodes cfg lower baseUrl api fullPath st of
             (episodes, st') \<Rightarrow>
               (TvResult \<lparr>ts_title = name it, ts_path = Some fullPath,
                           ts_seasons = [\<lparr>sn_season = Some (sf_season seasonMatch),
                                          sn_season_number = None,
                                          sn_episodes = Some episodes\<rparr>]\<rparr>, st'))
      | None \<Rightarrow>
          (case api fullPath st of
             (Inr (Some subItems), st') \<Rightarrow>
               (let an = analyzeDirectory cfg lower subItems;
                    hasSeasonEpisodeFiles =
                      list_ex (\<lambda>s. \<not> is_dir s \<and> isVideoFile cfg lower (name s) \<and>
                                   truthy (se_episode (extractSeasonEpisode (name s)))) subItems;
                    hasSeasonFolders =
                      list_ex (\<lambda>s. is_dir s \<and> matchSeasonFolder (name s) \<noteq> None) subItems
                in if hasSeasonEpisodeFiles \<or> hasSeasonFolders \<or> da_primaryType an = pt_tv then
                     (case getSeasonEpisodes cfg lower baseUrl api fullPath st' of
                        (episodes, st'') \<Rightarrow>
                          (TvResult \<lparr>ts_title = name it, ts_path = Some fullPath,
                                      ts_seasons = [\<lparr>sn_season = Some (Num 1),
                                                     sn_season_number = None,
                                                     sn_episodes = Some episodes\<rparr>]\<rparr>, st''))
                   else
                     (case getMovieFiles cfg lower baseUrl api fullPath st' of
                        (movieFiles, st'') \<Rightarrow>
                          (MovieResult \<lparr>mc_title = name it, mc_path = fullPath,
                                         mc_files = movieFiles, mc_seasons = None\<rparr>, st'')))
           | (_, st') \<Rightarrow>
               (MovieResult \<lparr>mc_title = name it, mc_path = fullPath, mc_files = [],
                              mc_seasons = None\<rparr>, st')))"

subsection \<open>_extractSeriesName and _mergeTvSeasons\<close>

fun split_from :: "cu \<Rightarrow> jstring \<Rightarrow> jstring \<Rightarrow> jstring list" where
  "split_from c cur [] = [rev cur]"
| "split_from c cur (x # xs) =
     (if x = c then rev cur # split_from c [] xs else split_from c (x # cur) xs)"

definition split_on :: "cu \<Rightarrow> jstring \<Rightarrow> jstring list" where
  "split_on c s = split_from c [] s"

fun join_with :: "jstring \<Rightarrow> jstring list \<Rightarrow> jstring" where
  "join_with sep [] = []"
| "join_with sep [p] = p"
| "join_with sep (p # ps) = p @ sep @ join_with sep ps"

text \<open>\<open>/^S\d{2}$/\<close> and the bare CJK season marker \<open>/^X\d+S$/\<close>.\<close>

definition bare_season_re :: re where
  "bare_season_re = seq [Bol, Chr (one 83), Rep digit 2 (Some 2), Eol]"

definition bare_cjk_season_re :: re where
  "bare_cjk_season_re = seq [Bol, Chr (one cjk_di), Rep digit 1 None, Chr (one cjk_ji), Eol]"

definition is_bare_season :: "jstring \<Rightarrow> bool" where
  "is_bare_season s = (re_test bare_season_re s \<or> re_test bare_cjk_season_re s)"

text \<open>
  The cleaning patterns: bracketed text \<open>/[\(L].*?[\)R]/g\<close> with the full-width brackets
  for L and R, the all-seasons marker \<open>/S\d{2}-S\d{2}.../g\<close> followed by three CJK units,
  \<open>/\d{4}P/g\<close>, and the subtitle marker: one of four CJK units, U+8BED, a lazy run and
  U+5B57.
\<close>

definition paren_re :: re where
  "paren_re = seq [Chr (Pos [(40, 40), (65288, 65288)]), Lazy dot 0 None,
                   Chr (Pos [(41, 41), (65289, 65289)])]"

definition all_seasons_re :: re where
  "all_seasons_re =
     seq [Chr (one 83), Rep digit 2 (Some 2), Chr (one 45), Chr (one 83), Rep digit 2 (Some 2),
          lit [23395, 20840, 38598]]"

definition res_P_re :: re where
  "res_P_re = seq [Rep digit 4 (Some 4), Chr (one 80)]"

definition subtitle_re :: re where
  "subtitle_re =
     seq [Chr (Pos [(20013, 20013), (33521, 33521), (26085, 26085), (38889, 38889)]),
          Chr (one 35821), Lazy dot 0 None, Chr (one 23383)]"

text \<open>The search from the second-last path segment down to the first.\<close>

fun real_name :: "jstring list \<Rightarrow> jstring option" where
  "real_name [] = None"
| "real_name (part # parts) =
     (if part \<noteq> [] \<and> \<not> is_bare_season part then Some part else real_name parts)"

definition extractSeriesName :: "tv_show \<Rightarrow> jstring" where
  "extractSeriesName show =
     (if ts_title show = [] then js ''Unknown Series''
      else
        (let seriesName =
               (if is_bare_season (ts_title show) then
                  (case ts_path show of
                     None \<Rightarrow> ts_title show
                   | Some p \<Rightarrow>
                       if p = [] then ts_title show
                       else (case real_name (rev (butlast (split_on 47 p))) of
                               None \<Rightarrow> ts_title show
                             | Some part \<Rightarrow> part))
                else ts_title show);
             seriesName = replace_all paren_re [] seriesName;
             seriesName = replace_all all_seasons_re [] seriesName;
             seriesName = replace_all res_P_re [] seriesName;
             seriesName = replace_all subtitle_re [] seriesName;
             seriesName = trim (replace_all spaces_re (js '' '') seriesName)
         in if seriesName \<noteq> [] then seriesName else ts_title show))"

record series =
  sr_title :: jstring
  sr_seasons :: "season_rec list"
  sr_paths :: "jstring list"
  sr_path :: "jstring option"

definition merge_step :: "(jstring \<times> series) list \<Rightarrow> tv_show \<Rightarrow> (jstring \<times> series) list" where
  "merge_step seriesMap show =
     (let seriesName = extractSeriesName show in
      case map_of seriesMap seriesName of
        Some existingSeries \<Rightarrow>
          map_set seriesMap seriesName
            (existingSeries\<lparr>
               sr_seasons := sr_seasons existingSeries @ ts_seasons show,
               sr_paths :=
                 (case ts_path show of
                    None \<Rightarrow> sr_paths existingSeries
                  | Some p \<Rightarrow>
                      if p \<noteq> [] \<and> p \<notin> set (sr_paths existingSeries)
                      then sr_paths existingSeries @ [p] else sr_paths existingSeries)\<rparr>)
      | None \<Rightarrow>
          map_set seriesMap seriesName
            \<lparr>sr_title = seriesName, sr_seasons = ts_seasons show,
             sr_paths = (case ts_path show of
                           None \<Rightarrow> [] | Some p \<Rightarrow> if p = [] then [] else [p]),
             sr_path = None\<rparr>)"

definition finish_series :: "series \<Rightarrow> series" where
  "finish_series s =
     (let s = s\<lparr>sr_seasons := sort_by_key (\<lambda>a. num_or (sn_season a) 1) (sr_seasons s)\<rparr>
      in case sr_paths s of
           [] \<Rightarrow> s
         | firstPath # _ \<Rightarrow>
             s\<lparr>sr_path := Some (join_with (js ''/'') (butlast (split_on 47 firstPath)))\<rparr>)"

definition mergeTvSeasons :: "tv_show list \<Rightarrow> series list" where
  "mergeTvSeasons tvShows =
     (if tvShows = [] then []
      else map (\<lambda>kv. finish_series (snd kv)) (foldl merge_step [] tvShows))"

section \<open>The generator: enrichment, the movie/TV split and the version groups\<close>

record content =
  c_id :: jstring
  c_title :: jstring
  c_media_type :: "jstring option"
  c_directory_type :: "jstring option"
  c_files :: "file_ref list option"
  c_seasons :: "season_rec list option"
  c_episode_count :: "nat option"
  c_file_count :: "nat option"
  c_number_of_seasons :: "nat option"
  c_number_of_episodes :: "nat option"
  c_original_tmdb_id :: "int option"

text \<open>
  What the enrichment collaborator returns for one title, as far as the generator reads
  or copies it: the numeric id and the fields that the spread \<open>...tmdbInfo\<close> carries over.
\<close>

record tmdb_info =
  t_id :: int
  t_title :: jstring
  t_media_type :: "jstring option"
  t_seasons :: "season_rec list option"
  t_episode_count :: "nat option"
  t_file_count :: "nat option"
  t_number_of_seasons :: "nat option"
  t_number_of_episodes :: "nat option"

text \<open>
  The ids are numbers and the generator prints them with \<open>Number.prototype.toString\<close>
  (directly and through template literals). The printing is a parameter \<open>toString\<close> of
  the definitions below. For an integer of magnitude below \<open>10^21\<close> it gives the decimal
  digits, which is \<open>decimal\<close>; from there on it uses the exponent form. \<open>decimal\<close>
  stands in for it only where an example with a small id is evaluated.
\<close>

fun nat_digits :: "nat \<Rightarrow> jstring" where
  "nat_digits n =
     (if n < 10 then [48 + int n] else nat_digits (n div 10) @ [48 + int (n mod 10)])"

definition decimal :: "int \<Rightarrow> jstring" where
  "decimal i = (if i < 0 then 45 # nat_digits (nat (- i)) else nat_digits (nat i))"

definition with_urls :: "jstring \<Rightarrow> file_ref \<Rightarrow> file_ref" where
  "with_urls base file =
     file\<lparr>fr_url := Some (str_or (fr_url file) (direct_url base (fr_path file) (fr_sign file))),
          fr_download_url :=
            Some (str_or (fr_download_url file) (direct_url base (fr_path file) (fr_sign file)))\<rparr>"

text \<open>
  The outcome of one lookup: the call throws, finds nothing, or returns a record. Each
  candidate comes with the outcome of its lookup and with the text that
  \<open>Date.now()\<close> and \<open>Math.random()\<close> contribute to the id of an unknown entry.
\<close>

datatype lookup = Threw | NotFound | Found tmdb_info

definition startsWith :: "jstring \<Rightarrow> jstring \<Rightarrow> bool" where
  "startsWith s p = (take (length p) s = p)"

text \<open>The loop over the movies: merge into an entry with the same id, or add a new one.\<close>

definition movie_step ::
  "(int \<Rightarrow> jstring) \<Rightarrow> jstring \<Rightarrow> (jstring \<times> content) list \<Rightarrow> movie_cand \<times> lookup \<times> jstring
   \<Rightarrow> (jstring \<times> content) list" where
  "movie_step toString base movieMap x =
     (case x of (movie, outcome, stamp) \<Rightarrow>
      case outcome of
        Threw \<Rightarrow> movieMap
      | Found tmdbInfo \<Rightarrow>
          (let uniqueId = toString (t_id tmdbInfo) in
           case map_of movieMap uniqueId of
             Some existingMovie \<Rightarrow>
               (case c_files existingMovie of
                  None \<Rightarrow> movieMap
                | Some fs \<Rightarrow>
                    map_set movieMap uniqueId
                      (existingMovie\<lparr>c_files := Some (fs @ mc_files movie),
                                      c_file_count := Some (length (fs @ mc_files movie))\<rparr>))
           | None \<Rightarrow>
               map_set movieMap uniqueId
                 \<lparr>c_id = uniqueId, c_title = t_title tmdbInfo,
                  c_media_type = t_media_type tmdbInfo, c_directory_type = Some (js ''movie''),
                  c_files = Some (map (with_urls base) (mc_files movie)),
                  c_seasons = t_seasons tmdbInfo, c_episode_count = t_episode_count tmdbInfo,
                  c_file_count = Some (length (mc_files movie)),
                  c_number_of_seasons = t_number_of_seasons tmdbInfo,
                  c_number_of_episodes = t_number_of_episodes tmdbInfo,
                  c_original_tmdb_id = Some (t_id tmdbInfo)\<rparr>)
      | NotFound \<Rightarrow>
          (let unknownId = js ''unknown_movie_'' @ stamp in
           map_set movieMap unknownId
             \<lparr>c_id = unknownId, c_title = mc_title movie, c_media_type = Some (js ''movie''),
              c_directory_type = Some (js ''movie''),
              c_files = Some (map (with_urls base) (mc_files movie)),
              c_seasons = None, c_episode_count = None,
              c_file_count = Some (length (mc_files movie)),
              c_number_of_seasons = None, c_number_of_episodes = None,
              c_original_tmdb_id = None\<rparr>))"

text \<open>
  The seasons of a found show: \<open>season.episodes.map\<close> throws when a season has no
  episode list, and the handler of the loop then skips the show.
\<close>

definition enrich_episode :: "jstring \<Rightarrow> episode_rec \<Rightarrow> episode_rec" where
  "enrich_episode base e =
     (let link = (case ep_file e of
                    Some f \<Rightarrow> str_or (fr_url f) (direct_url base (fr_path f) (fr_sign f))
                  | None \<Rightarrow> base @ js ''/d'' @ ep_path e);
          dl = (case ep_file e of
                  Some f \<Rightarrow> str_or (fr_download_url f) (direct_url base (fr_path f) (fr_sign f))
                | None \<Rightarrow> base @ js ''/d'' @ ep_path e)
      in \<lparr>episode_number = ep_episode e, ep_episode = None, ep_season = None,
          ep_name = ep_title e, ep_title = None, ep_url = Some link,
          ep_download_url = Some dl, ep_path = ep_path e, ep_file = None\<rparr>)"

fun enrich_seasons :: "jstring \<Rightarrow> season_rec list \<Rightarrow> season_rec list option" where
  "enrich_seasons base [] = Some []"
| "enrich_seasons base (s # ss) =
     (case sn_episodes s of
        None \<Rightarrow> None
      | Some es \<Rightarrow>
          (case enrich_seasons base ss of
             None \<Rightarrow> None
           | Some rest \<Rightarrow>
               Some (\<lparr>sn_season = None, sn_season_number = sn_season s,
                      sn_episodes = Some (map (enrich_episode base) es)\<rparr> # rest)))"

fun count_episodes :: "season_rec list \<Rightarrow> nat option" where
  "count_episodes [] = Some 0"
| "count_episodes (s # ss) =
     (case sn_episodes s of
        None \<Rightarrow> None
      | Some es \<Rightarrow> (case count_episodes ss of None \<Rightarrow> None | Some n \<Rightarrow> Some (length es + n)))"

definition tv_step ::
  "(int \<Rightarrow> jstring) \<Rightarrow> jstring \<Rightarrow> (jstring \<times> content) list \<Rightarrow> series \<times> lookup \<times> jstring
   \<Rightarrow> (jstring \<times> content) list" where
  "tv_step toString base movieMap x =
     (case x of (tvShow, outcome, stamp) \<Rightarrow>
      case outcome of
        Threw \<Rightarrow> movieMap
      | Found tmdbInfo \<Rightarrow>
          (let uniqueId = js ''tv_'' @ toString (t_id tmdbInfo) in
           case enrich_seasons base (sr_seasons tvShow) of
             None \<Rightarrow> movieMap
           | Some seasons \<Rightarrow>
               map_set movieMap uniqueId
                 \<lparr>c_id = uniqueId, c_title = t_title tmdbInfo,
                  c_media_type = t_media_type tmdbInfo, c_directory_type = Some (js ''tv''),
                  c_files = Some [], c_seasons = Some seasons,
                  c_episode_count = count_episodes seasons,
                  c_file_count = t_file_count tmdbInfo,
                  c_number_of_seasons = t_number_of_seasons tmdbInfo,
                  c_number_of_episodes = t_number_of_episodes tmdbInfo,
                  c_original_tmdb_id = Some (t_id tmdbInfo)\<rparr>)
      | NotFound \<Rightarrow>
          (let unknownId = js ''unknown_tv_'' @ stamp in
           case count_episodes (sr_seasons tvShow) of
             None \<Rightarrow> movieMap
           | Some n \<Rightarrow>
               map_set movieMap unknownId
                 \<lparr>c_id = unknownId, c_title = sr_title tvShow, c_media_type = Some (js ''tv''),
                  c_directory_type = Some (js ''tv''), c_files = Some [],
                  c_seasons = Some (sr_seasons tvShow), c_episode_count = Some n,
                  c_file_count = None, c_number_of_seasons = None,
                  c_number_of_episodes = None, c_original_tmdb_id = None\<rparr>))"

definition allContent ::
  "(int \<Rightarrow> jstring) \<Rightarrow> jstring \<Rightarrow> (movie_cand \<times> lookup \<times> jstring) list \<Rightarrow> (series \<times> lookup \<times> jstring) list
   \<Rightarrow> content list" where
  "allContent toString base detectedMovies detectedTvShows =
     map snd (foldl (tv_step toString base) (foldl (movie_step toString base) [] detectedMovies)
                detectedTvShows)"

text \<open>The split: an entry goes to each list whose test it passes.\<close>

definition finalMovies :: "content list \<Rightarrow> content list" where
  "finalMovies cs =
     filter (\<lambda>c. c_media_type c = Some (js ''movie'') \<or> c_directory_type c = Some (js ''movie'')) cs"

definition finalTvShows :: "content list \<Rightarrow> content list" where
  "finalTvShows cs =
     filter (\<lambda>c. c_media_type c = Some (js ''tv'') \<or> c_directory_type c = Some (js ''tv'')) cs"

text \<open>\<open>s.replace(t, '')\<close> for a string pattern \<open>t\<close>: the first occurrence is removed.\<close>

fun remove_first :: "jstring \<Rightarrow> jstring \<Rightarrow> jstring" where
  "remove_first t [] = []"
| "remove_first t (x # xs) =
     (if take (length t) (x # xs) = t then drop (length t) (x # xs) else x # remove_first t xs)"

definition correct_movie :: "(int \<Rightarrow> jstring) \<Rightarrow> content \<Rightarrow> content" where
  "correct_movie toString movie =
     (let corrected = movie\<lparr>c_seasons := None, c_episode_count := None,
                            c_number_of_seasons := None, c_number_of_episodes := None\<rparr>
      in if \<not> startsWith (c_id corrected) (js ''movie_'') then
           corrected\<lparr>c_id := js ''movie_'' @
              (case c_original_tmdb_id corrected of
                 None \<Rightarrow> c_id corrected
               | Some i \<Rightarrow> if i = 0 then c_id corrected else toString i)\<rparr>
         else corrected)"

definition correct_tv :: "(int \<Rightarrow> jstring) \<Rightarrow> content \<Rightarrow> content" where
  "correct_tv toString tvShow =
     (let corrected =
            (if \<not> startsWith (c_id tvShow) (js ''tv_'') then
               tvShow\<lparr>c_id := js ''tv_'' @
                  (case c_original_tmdb_id tvShow of
                     None \<Rightarrow> remove_first (js ''movie_'') (c_id tvShow)
                   | Some i \<Rightarrow> if i = 0 then remove_first (js ''movie_'') (c_id tvShow)
                               else toString i)\<rparr>
             else tvShow);
          corrected = (case c_seasons corrected of
                         None \<Rightarrow> corrected\<lparr>c_seasons := Some []\<rparr>
                       | Some _ \<Rightarrow> corrected)
      in case c_episode_count corrected of
           Some (Suc n) \<Rightarrow> corrected
         | _ \<Rightarrow>
             corrected\<lparr>c_episode_count :=
               Some (sum_list (map (\<lambda>s. case sn_episodes s of None \<Rightarrow> 0 | Some es \<Rightarrow> length es)
                                 (case c_seasons corrected of None \<Rightarrow> [] | Some ss \<Rightarrow> ss)))\<rparr>)"

definition finalCorrectedMovies :: "(int \<Rightarrow> jstring) \<Rightarrow> content list \<Rightarrow> content list" where
  "finalCorrectedMovies toString cs = map (correct_movie toString) (finalMovies cs)"

definition finalCorrectedTvShows :: "(int \<Rightarrow> jstring) \<Rightarrow> content list \<Rightarrow> content list" where
  "finalCorrectedTvShows toString cs = map (correct_tv toString) (finalTvShows cs)"

subsection \<open>aggregateSameNameContent\<close>

text \<open>The three version names, as code units.\<close>

definition movie_version :: jstring where "movie_version = [30005, 24433, 29256]"
definition tv_version :: jstring where "tv_version = [30005, 35270, 21095, 29256]"
definition default_version :: jstring where "default_version = [40664, 35748, 29256]"

definition getVersionName :: "content \<Rightarrow> jstring" where
  "getVersionName version =
     (if startsWith (c_id version) (js ''movie_'') then movie_version
      else if startsWith (c_id version) (js ''tv_'') then tv_version
      else if c_directory_type version = Some (js ''movie'') then movie_version
      else if c_directory_type version = Some (js ''tv'') then tv_version
      else default_version)"

definition has_files :: "content \<Rightarrow> bool" where
  "has_files v = (case c_files v of None \<Rightarrow> False | Some fs \<Rightarrow> length fs > 0)"

definition has_seasons :: "content \<Rightarrow> bool" where
  "has_seasons v = (case c_seasons v of None \<Rightarrow> False | Some ss \<Rightarrow> length ss > 0)"

text \<open>
  \<open>selectMainVersion\<close> is called on groups of at least two members; on the empty list
  \<open>versions[0]\<close> is \<open>undefined\<close>, here \<open>None\<close>.
\<close>

definition selectMainVersion :: "content list \<Rightarrow> content option" where
  "selectMainVersion versions =
     (let withFiles = filter has_files versions;
          withSeasons = filter has_seasons versions
      in if length withFiles > 0 then Some (withFiles ! 0)
         else if length withSeasons > 0 then Some (withSeasons ! 0)
         else (case versions of [] \<Rightarrow> None | v # _ \<Rightarrow> Some v))"

record version =
  v_id :: jstring
  v_version_name :: jstring
  v_is_main :: bool
  v_media_type :: "jstring option"
  v_files :: "file_ref list"
  v_seasons :: "season_rec list"
  v_directory_type :: "jstring option"

definition mk_version :: "bool \<Rightarrow> content \<Rightarrow> version" where
  "mk_version main v =
     \<lparr>v_id = c_id v, v_version_name = getVersionName v, v_is_main = main,
      v_media_type = c_media_type v,
      v_files = (case c_files v of None \<Rightarrow> [] | Some fs \<Rightarrow> fs),
      v_seasons = (case c_seasons v of None \<Rightarrow> [] | Some ss \<Rightarrow> ss),
      v_directory_type = c_directory_type v\<rparr>"

text \<open>
  An entry of the result: the fields of the item (of the main version for a group), and
  for a group the versions, the flag and the count.
\<close>

record entry =
  e_item :: content
  e_versions :: "version list option"
  e_is_aggregated :: "bool option"
  e_aggregated_count :: "nat option"

text \<open>The template literal of the group key: \<open>undefined\<close> prints as the word.\<close>

definition groupKey :: "content \<Rightarrow> jstring" where
  "groupKey it =
     c_title it @ js ''_'' @
       (case c_media_type it of None \<Rightarrow> js ''undefined'' | Some t \<Rightarrow> t)"

definition group_step :: "(jstring \<times> content list) list \<Rightarrow> content \<Rightarrow> (jstring \<times> content list) list" where
  "group_step groupedByTitle it =
     (case map_of groupedByTitle (groupKey it) of
        None \<Rightarrow> map_set groupedByTitle (groupKey it) [it]
      | Some members \<Rightarrow> map_set groupedByTitle (groupKey it) (members @ [it]))"

definition aggregate_group :: "content list \<Rightarrow> entry option" where
  "aggregate_group members =
     (if length members = 1
      then Some \<lparr>e_item = members ! 0, e_versions = None, e_is_aggregated = None,
                 e_aggregated_count = None\<rparr>
      else
        (case selectMainVersion members of
           None \<Rightarrow> None
         | Some mainVersion \<Rightarrow>
             (let otherVersions = filter (\<lambda>it. c_id it \<noteq> c_id mainVersion) members
              in Some \<lparr>e_item = mainVersion,
                       e_versions =
                         Some (mk_version True mainVersion # map (mk_version False) otherVersions),
                       e_is_aggregated = Some True,
                       e_aggregated_count = Some (length members)\<rparr>)))"

text \<open>
  Every group of the map has at least one member, so the \<open>None\<close> of \<open>aggregate_group\<close>
  (a \<open>TypeError\<close> in the source) does not arise in \<open>aggregateSameNameContent\<close>.
\<close>

definition aggregateSameNameContent :: "content list \<Rightarrow> entry option list" where
  "aggregateSameNameContent contentList =
     map (\<lambda>kv. aggregate_group (snd kv)) (foldl group_step [] contentList)"

definition enrichedContent ::
  "(int \<Rightarrow> jstring) \<Rightarrow> jstring \<Rightarrow> (movie_cand \<times> lookup \<times> jstring) list \<Rightarrow> (series \<times> lookup \<times> jstring) list
   \<Rightarrow> entry option list" where
  "enrichedContent toString base detectedMovies detectedTvShows =
     (let cs = allContent toString base detectedMovies detectedTvShows
      in aggregateSameNameContent
           (finalCorrectedMovies toString cs @ finalCorrectedTvShows toString cs))"

section \<open>AlistAPI\<close>

text \<open>
  The file-listing server as the client sees it: the outcome of the login request, and
  for each path the outcome of the list request, which fails or delivers the content of
  the directory, possibly \<open>null\<close>. The state of the client is its token.
\<close>

record alist_server =
  login_response :: "error + jstring"
  list_response :: "jstring \<Rightarrow> error + item list option"

text \<open>
  \<open>_getFiles\<close>: the login happens outside the \<open>try\<close>, so its failure is thrown on; a
  failed list request is caught and answered with the empty list.
\<close>

definition getFiles :: "alist_server \<Rightarrow> jstring option api" where
  "getFiles srv currentPath token =
     (let logged = (case token of
                      Some t \<Rightarrow> if t \<noteq> [] then Inr token else map_sum id Some (login_response srv)
                    | None \<Rightarrow> map_sum id Some (login_response srv))
      in case logged of
           Inl err \<Rightarrow> (Inl err, token)
         | Inr token' \<Rightarrow>
             (case list_response srv currentPath of
                Inl err \<Rightarrow> (Inr (Some []), token')
              | Inr content \<Rightarrow> (Inr content, token')))"

definition listDirectory :: "alist_server \<Rightarrow> jstring option api" where
  "listDirectory srv = getFiles srv"


section \<open>Predicates used in the statements and proofs\<close>

text \<open>A non-empty run of at most \<open>n\<close> decimal digits.\<close>

definition digits_ok :: "nat \<Rightarrow> jstring \<Rightarrow> bool" where
  "digits_ok n s = (s \<noteq> [] \<and> length s \<le> n \<and> list_all (cls_ok digit) s)"

text \<open>
  \<open>caps_digit b r\<close>: every capturing group \<open>i\<close> of \<open>r\<close> is a digit run \<open>\d{lo,hi}\<close>
  with \<open>1 \<le> lo\<close> and \<open>hi \<le> b i\<close>. \<open>sets_grp r i\<close>: every match of \<open>r\<close> sets group
  \<open>i\<close>.
\<close>

fun caps_digit :: "(nat \<Rightarrow> nat) \<Rightarrow> re \<Rightarrow> bool" where
  "caps_digit b (Grp i (Rep k lo (Some hi))) = (k = digit \<and> 1 \<le> lo \<and> hi \<le> b i)"
| "caps_digit b (Grp i r) = False"
| "caps_digit b (Cat x y) = (caps_digit b x \<and> caps_digit b y)"
| "caps_digit b (Alt x y) = (caps_digit b x \<and> caps_digit b y)"
| "caps_digit b r = True"

fun sets_grp :: "re \<Rightarrow> nat \<Rightarrow> bool" where
  "sets_grp (Grp j r) i = (i = j \<or> sets_grp r i)"
| "sets_grp (Cat x y) i = (sets_grp x i \<or> sets_grp y i)"
| "sets_grp (Alt x y) i = (sets_grp x i \<and> sets_grp y i)"
| "sets_grp r i = False"

definition caps_inv :: "(nat \<Rightarrow> nat) \<Rightarrow> (nat \<times> jstring) list \<Rightarrow> bool" where
  "caps_inv b g = (\<forall>(i, s) \<in> set g. digits_ok (b i) s)"

text \<open>A possibly-null number that, when present, is a number between 0 and \<open>b\<close>.\<close>

fun at_most :: "jsnum option \<Rightarrow> int \<Rightarrow> bool" where
  "at_most None b = True"
| "at_most (Some NaN) b = False"
| "at_most (Some (Num n)) b = (0 \<le> n \<and> n \<le> b)"

text \<open>
  The pair of numbers that the leftmost match of \<open>S(\d{1,2})E(\d{1,2})\<close> captures in a
  name, and the pair that the leftmost match of \<open>S(\d{1,2})E(\d{1,3})\<close> captures.
\<close>

definition se_token :: "jstring \<Rightarrow> (jsnum \<times> jsnum) option" where
  "se_token f =
     (case re_match se_pattern f of
        None \<Rightarrow> None
      | Some m \<Rightarrow> Some (parseInt (group m 1), parseInt (group m 2)))"

definition pa_se_token :: "jstring \<Rightarrow> (jsnum \<times> jsnum) option" where
  "pa_se_token f =
     (case re_match pa_se_re f of
        None \<Rightarrow> None
      | Some m \<Rightarrow> Some (parseInt (group m 1), parseInt (group m 2)))"

definition followed_by_digit :: "jstring \<Rightarrow> bool" where
  "followed_by_digit xs = (case xs of [] \<Rightarrow> False | c # _ \<Rightarrow> cls_ok digit c)"

definition se_delimited :: "jstring \<Rightarrow> bool" where
  "se_delimited f =
     (case re_match se_pattern f of None \<Rightarrow> False | Some m \<Rightarrow> \<not> followed_by_digit (m_rest m))"

definition se_head :: re where
  "se_head = Cat (Chr (both_cases 83)) (Cat (Grp 1 d12) (Chr (both_cases 69)))"

definition capture2 :: "mstate \<Rightarrow> nat \<Rightarrow> mstate" where
  "capture2 q j = (case q of (g, p, xs) \<Rightarrow> ((2, take j xs) # g, rev (take j xs) @ p, drop j xs))"

definition file_of :: "string \<Rightarrow> item" where
  "file_of n = \<lparr>name = js n, is_dir = False, sign = None, url = None\<rparr>"

text \<open>
  The tallies of \<open>analyzeDirectory\<close>, stated on the items: a directory counts as
  movie evidence unless its name is a season folder, a video file counts by the type
  \<open>analyzeFile\<close> gives it.
\<close>

definition movie_evidence :: "detector_config \<Rightarrow> (jstring \<Rightarrow> jstring) \<Rightarrow> item \<Rightarrow> bool" where
  "movie_evidence cfg lower it =
     (if is_dir it then matchSeasonFolder (name it) = None
      else isVideoFile cfg lower (name it) \<and> fa_type (analyzeFile it) = Movie)"

definition tv_evidence :: "detector_config \<Rightarrow> (jstring \<Rightarrow> jstring) \<Rightarrow> item \<Rightarrow> bool" where
  "tv_evidence cfg lower it =
     (if is_dir it then matchSeasonFolder (name it) \<noteq> None
      else isVideoFile cfg lower (name it) \<and> fa_type (analyzeFile it) = Episode)"

definition movie_tally :: "detector_config \<Rightarrow> (jstring \<Rightarrow> jstring) \<Rightarrow> item list \<Rightarrow> nat" where
  "movie_tally cfg lower items = length (filter (movie_evidence cfg lower) items)"

definition tv_tally :: "detector_config \<Rightarrow> (jstring \<Rightarrow> jstring) \<Rightarrow> item list \<Rightarrow> nat" where
  "tv_tally cfg lower items = length (filter (tv_evidence cfg lower) items)"

text \<open>The numbers of movie-typed and episode-typed video files of a directory record.\<close>

definition movie_files :: "path_info \<Rightarrow> nat" where
  "movie_files pathInfo =
     length (filter (\<lambda>f. md_type (vf_metadata f) = Movie) (pi_videoFiles pathInfo))"

definition episode_files :: "path_info \<Rightarrow> nat" where
  "episode_files pathInfo =
     length (filter (\<lambda>f. md_type (vf_metadata f) = Episode) (pi_videoFiles pathInfo))"

definition has_subdir :: "role \<Rightarrow> path_info \<Rightarrow> bool" where
  "has_subdir r pathInfo = list_ex (\<lambda>d. sd_type d = r) (pi_subdirectories pathInfo)"

text \<open>A directory record that holds the named video files, parsed as the walk parses them.\<close>

definition video_of :: "string \<Rightarrow> video_file" where
  "video_of n = \<lparr>vf_item = file_of n, vf_path = js n, vf_metadata = analyzeFileName (js n)\<rparr>"

definition dir_with :: "video_file list \<Rightarrow> subdir list \<Rightarrow> path_info" where
  "dir_with vs ds = \<lparr>pi_path = js ''/d'', pi_depth = 0, pi_type = unknown_dir, pi_items = [],
                      pi_videoFiles = vs, pi_subdirectories = ds\<rparr>"


definition dune_file :: file_ref where
  "dune_file = \<lparr>fr_name = js ''Dune.mkv'', fr_path = js ''/m/Dune.mkv'', fr_sign = None,
                 fr_url = None, fr_download_url = None\<rparr>"

text \<open>
  The season fragments of the shows whose series name is \<open>k\<close>, in discovery order, and
  the key by which \<open>_mergeTvSeasons\<close> sorts fragments.
\<close>

definition fragments :: "jstring \<Rightarrow> tv_show list \<Rightarrow> season_rec list" where
  "fragments k shows = concat (map ts_seasons (filter (\<lambda>sh. extractSeriesName sh = k) shows))"

definition season_key :: "season_rec \<Rightarrow> int" where
  "season_key a = num_or (sn_season a) 1"

text \<open>
  A listing service with two copies of the first season of one show, each holding
  episode 2 before episode 1, and the candidate that \<open>_analyzeSubdirectory\<close> builds for
  the season folder under a given parent.
\<close>

definition demo_listing :: "unit api" where
  "demo_listing p st =
     (if p = js ''/x/Show/S01'' \<or> p = js ''/y/Show/S01''
      then (Inr (Some [file_of ''Show.S01E02.mkv'', file_of ''Show.S01E01.mkv'']), st)
      else (Inr (Some []), st))"

definition season_dir :: "string \<Rightarrow> item" where
  "season_dir n = \<lparr>name = js n, is_dir = True, sign = None, url = None\<rparr>"

definition demo_show :: "string \<Rightarrow> tv_show" where
  "demo_show parent =
     (case fst (analyzeSubdirectory default_config ascii_lower (js ''http://h'') demo_listing
                  (season_dir ''S01'') (js parent) ()) of
        TvResult s \<Rightarrow> s
      | MovieResult m \<Rightarrow> \<lparr>ts_title = [], ts_path = None, ts_seasons = []\<rparr>)"

text \<open>A candidate with the given title, path and season numbers, without episodes.\<close>

definition plain_show :: "string \<Rightarrow> string \<Rightarrow> int list \<Rightarrow> tv_show" where
  "plain_show t p ns =
     \<lparr>ts_title = js t, ts_path = Some (js p),
      ts_seasons = map (\<lambda>n. \<lparr>sn_season = Some (Num n), sn_season_number = None,
                              sn_episodes = Some []\<rparr>) ns\<rparr>"






definition merge_inv :: "(jstring \<times> series) list \<Rightarrow> tv_show list \<Rightarrow> bool" where
  "merge_inv m xs =
     (distinct (map fst m) \<and>
      (\<forall>k. (k \<notin> extractSeriesName ` set xs \<longrightarrow> map_of m k = None) \<and>
           (k \<in> extractSeriesName ` set xs \<longrightarrow>
              (\<exists>s. map_of m k = Some s \<and> sr_title s = k \<and> sr_seasons s = fragments k xs))))"


text \<open>
  A lookup result with the given id, title and media type, a movie candidate with one
  file and a merged series with one season of one episode.
\<close>

definition tmdb_rec :: "int \<Rightarrow> string \<Rightarrow> string \<Rightarrow> tmdb_info" where
  "tmdb_rec i t mt =
     \<lparr>t_id = i, t_title = js t, t_media_type = Some (js mt), t_seasons = None,
      t_episode_count = None, t_file_count = None, t_number_of_seasons = None,
      t_number_of_episodes = None\<rparr>"

definition dune_cand :: movie_cand where
  "dune_cand = \<lparr>mc_title = js ''Dune'', mc_path = js ''/m/Dune'', mc_files = [dune_file],
                 mc_seasons = None\<rparr>"

definition show_series :: series where
  "show_series =
     \<lparr>sr_title = js ''Show'',
      sr_seasons = [\<lparr>sn_season = Some (Num 1), sn_season_number = None,
                     sn_episodes = Some [\<lparr>episode_number = Some (Num 1), ep_episode = None,
                        ep_season = None, ep_name = Some (js ''Show''), ep_title = None,
                        ep_url = None, ep_download_url = None,
                        ep_path = js ''/t/Show/S01/Show.S01E01.mkv'', ep_file = None\<rparr>]\<rparr>],
      sr_paths = [js ''/t/Show/S01''], sr_path = Some (js ''/t/Show'')\<rparr>"

text \<open>Every entry of a map satisfies a predicate.\<close>

definition all_values :: "('v \<Rightarrow> bool) \<Rightarrow> ('k \<times> 'v) list \<Rightarrow> bool" where
  "all_values P m = list_all (\<lambda>kv. P (snd kv)) m"

text \<open>
  What the two loops of the generator write into the map: the loop over the movie
  candidates writes records of directory type \<open>movie\<close> with a files field, the loop over
  the TV candidates records of directory type \<open>tv\<close> with the empty list as files.
\<close>

definition movie_built :: "content \<Rightarrow> bool" where
  "movie_built c = (c_directory_type c = Some (js ''movie'') \<and> c_files c \<noteq> None)"

definition tv_built :: "content \<Rightarrow> bool" where
  "tv_built c = (c_directory_type c = Some (js ''tv'') \<and> c_files c = Some [])"

text \<open>
  A listing service that answers with an empty listing wherever the given one fails, and
  the parts of a directory record that the walk derives from a listing.
\<close>

definition caught :: "'st api \<Rightarrow> 'st api" where
  "caught api p st =
     (case api p st of (Inl err, st') \<Rightarrow> (Inr (Some []), st') | (Inr r, st') \<Rightarrow> (Inr r, st'))"

definition subdirs_of :: "pa_config \<Rightarrow> (jstring \<Rightarrow> jstring) \<Rightarrow> jstring \<Rightarrow> item list \<Rightarrow> subdir list" where
  "subdirs_of cfg lower currentPath items =
     map (\<lambda>it. \<lparr>sd_name = name it, sd_path = child_path currentPath (name it),
                 sd_type = classifyDirectory cfg (name it)\<rparr>)
       (filter (\<lambda>it. is_dir it \<and> \<not> shouldIgnoreDirectory cfg lower (name it)) items)"

definition videos_of :: "(jstring \<Rightarrow> jstring) \<Rightarrow> jstring \<Rightarrow> item list \<Rightarrow> video_file list" where
  "videos_of lower currentPath items =
     map (\<lambda>it. \<lparr>vf_item = it, vf_path = child_path currentPath (name it),
                 vf_metadata = analyzeFileName (name it)\<rparr>)
       (filter (\<lambda>it. \<not> is_dir it \<and> pa_isVideoFile lower (name it)) items)"

definition record_of ::
  "pa_config \<Rightarrow> (jstring \<Rightarrow> jstring) \<Rightarrow> jstring \<Rightarrow> nat \<Rightarrow> item list \<Rightarrow> path_info" where
  "record_of cfg lower currentPath depth items =
     (let r = \<lparr>pi_path = currentPath, pi_depth = depth, pi_type = unknown_dir,
               pi_items = filter (\<lambda>it. \<not> is_dir it) items,
               pi_videoFiles = videos_of lower currentPath items,
               pi_subdirectories = subdirs_of cfg lower currentPath items\<rparr>
      in r\<lparr>pi_type := analyzeDirectoryType r\<rparr>)"

text \<open>
  A listing service over a fixed tree: the answer for a path does not depend on the
  state.
\<close>

definition static :: "(jstring \<Rightarrow> error + item list option) \<Rightarrow> 'st api" where
  "static f p st = (f p, st)"

text \<open>
  The directories that the walk over a fixed tree reaches from \<open>p\<close> with \<open>n\<close> levels
  left, children first: \<open>p\<close> itself when its listing succeeds and is not empty, and what is
  reached from its subdirectories that are not ignored. A path whose listing fails
  contributes nothing and hides only what lies below it.
\<close>

fun reached ::
  "pa_config \<Rightarrow> (jstring \<Rightarrow> jstring) \<Rightarrow> (jstring \<Rightarrow> error + item list option) \<Rightarrow> nat \<Rightarrow> jstring
   \<Rightarrow> jstring list" where
  "reached cfg lower f 0 p = []"
| "reached cfg lower f (Suc n) p =
     (case f p of
        Inr (Some items) \<Rightarrow>
          if items = [] then []
          else concat (map (\<lambda>it. reached cfg lower f n (child_path p (name it)))
                        (filter (\<lambda>it. is_dir it \<and> \<not> shouldIgnoreDirectory cfg lower (name it))
                           items)) @ [p]
      | _ \<Rightarrow> [])"

text \<open>Every record of a path map is the record of the listing of its own path.\<close>

definition records_ok ::
  "pa_config \<Rightarrow> (jstring \<Rightarrow> jstring) \<Rightarrow> (jstring \<Rightarrow> error + item list option) \<Rightarrow>
   (jstring \<times> path_info) list \<Rightarrow> bool" where
  "records_ok cfg lower f m =
     (\<forall>(q, r) \<in> set m. \<exists>its. f q = Inr (Some its) \<and> its \<noteq> [] \<and>
                            r = record_of cfg lower q (pi_depth r) its)"

text \<open>
  A tree with failing listings on two levels: the root holds the directories \<open>bad\<close> and
  \<open>sub\<close> and a movie file, \<open>sub\<close> holds the directories \<open>bad\<close> and \<open>good\<close>; the listings of
  both \<open>bad\<close> directories fail. And the record with which the walk starts a directory.
\<close>

definition demo_dirs :: "jstring \<Rightarrow> error + item list option" where
  "demo_dirs p =
     (if p = js ''/r''
      then Inr (Some [season_dir ''bad'', season_dir ''sub'', file_of ''a.mkv''])
      else if p = js ''/r/bad'' then Inl (Failure (js ''timeout''))
      else if p = js ''/r/sub'' then Inr (Some [season_dir ''bad'', season_dir ''good''])
      else if p = js ''/r/sub/bad'' then Inl (Failure (js ''timeout''))
      else if p = js ''/r/sub/good'' then Inr (Some [file_of ''b.mkv''])
      else Inr (Some []))"

definition empty_record :: "jstring \<Rightarrow> nat \<Rightarrow> path_info" where
  "empty_record p depth =
     \<lparr>pi_path = p, pi_depth = depth, pi_type = unknown_dir, pi_items = [],
      pi_videoFiles = [], pi_subdirectories = []\<rparr>"

text \<open>A server that accepts the login and fails every list request.\<close>

definition failing_server :: alist_server where
  "failing_server =
     \<lparr>login_response = Inr (js ''token''),
      list_response = (\<lambda>p. Inl (Failure (js ''timeout'')))\<rparr>"

text \<open>
  A title in which none of the removal patterns of \<open>extractTitle\<close> matches: no
  bracketed year, resolution, codec, audio, source or season-episode token.
\<close>

definition no_token :: "jstring \<Rightarrow> bool" where
  "no_token t = list_all (\<lambda>r. re_match r t = None) token_res"

text \<open>
  Replacing every maximal run of units of a class by \<open>rep\<close>; the flag tells whether the
  unit before belonged to a run. \<open>spaced b s\<close>: every white-space unit of \<open>s\<close> is a
  single space character, not preceded by another one (\<open>b\<close>: a space came before).
\<close>

fun collapse :: "cls \<Rightarrow> jstring \<Rightarrow> bool \<Rightarrow> jstring \<Rightarrow> jstring" where
  "collapse k rep b [] = []"
| "collapse k rep b (x # xs) =
     (if cls_ok k x then (if b then collapse k rep True xs else rep @ collapse k rep True xs)
      else x # collapse k rep False xs)"

fun spaced :: "bool \<Rightarrow> jstring \<Rightarrow> bool" where
  "spaced b [] = True"
| "spaced b (x # xs) =
     (if cls_ok space x then x = 32 \<and> \<not> b \<and> spaced True xs else spaced False xs)"


section \<open>Properties of the pattern matcher\<close>

lemma take_takeWhile_le: "j \<le> length (takeWhile P xs) \<Longrightarrow> take j xs = take j (takeWhile P xs)"
  by (induction xs arbitrary: j) (auto simp: take_Cons split: nat.splits if_splits)

lemma rep_capture:
  assumes "lo \<le> j" "j \<le> run_len digit (Some hi) xs" "1 \<le> lo"
  shows "digits_ok hi (rev (take (length (rev (take j xs) @ p) - length p) (rev (take j xs) @ p)))"
proof -
  let ?w = "takeWhile (cls_ok digit) xs"
  from assms(2) have jw: "j \<le> length ?w" and jh: "j \<le> hi"
    by (simp_all add: run_len_def Let_def)
  have "length ?w \<le> length xs" by (rule length_takeWhile_le)
  with jw have jl: "j \<le> length xs" by simp
  then have len: "length (take j xs) = j" by simp
  have tk: "take j xs = take j ?w"
    using jw by (rule take_takeWhile_le)
  have "list_all (cls_ok digit) (take j ?w)"
    by (metis in_set_takeD list_all_iff set_takeWhileD)
  with tk have all: "list_all (cls_ok digit) (take j xs)" by simp
  have eq: "rev (take (length (rev (take j xs) @ p) - length p) (rev (take j xs) @ p)) = take j xs"
    using len by simp
  from assms(1,3) have "j \<noteq> 0" by simp
  with len have ne: "take j xs \<noteq> []" by auto
  show ?thesis unfolding eq digits_ok_def using ne len jh all by simp
qed

lemma steps_Cat_elim:
  "s' \<in> set (steps (Cat a b) s) \<Longrightarrow> \<exists>s1 \<in> set (steps a s). s' \<in> set (steps b s1)"
  by auto

lemma steps_Rep_caps: "s' \<in> set (steps (Rep k lo hi) s) \<Longrightarrow> fst s' = fst s"
  by (cases s) (auto simp: advance_def)

lemma steps_Lazy_caps: "s' \<in> set (steps (Lazy k lo hi) s) \<Longrightarrow> fst s' = fst s"
  by (cases s) (auto simp: advance_def)

lemma steps_Chr_caps: "s' \<in> set (steps (Chr k) s) \<Longrightarrow> fst s' = fst s"
  by (cases s) (auto split: list.splits if_splits)

lemma steps_anchor_caps:
  "r = Eps \<or> r = Bol \<or> r = Eol \<or> r = Wordb \<or> r = NotBehind k \<or> r = NotAhead k \<Longrightarrow>
   s' \<in> set (steps r s) \<Longrightarrow> s' = s"
  by (cases s) (auto split: list.splits if_splits)

lemma steps_caps_inv:
  "caps_digit b r \<Longrightarrow> caps_inv b (fst s) \<Longrightarrow> s' \<in> set (steps r s) \<Longrightarrow> caps_inv b (fst s')"
proof (induction r arbitrary: s s')
  case (Cat a c)
  from Cat.prems(3) obtain s1 where "s1 \<in> set (steps a s)" "s' \<in> set (steps c s1)"
    using steps_Cat_elim by blast
  moreover from Cat.prems(1) have "caps_digit b a" "caps_digit b c" by simp_all
  ultimately show ?case using Cat.IH Cat.prems(2) by blast
next
  case (Alt a c)
  from Alt.prems(1) have "caps_digit b a" "caps_digit b c" by simp_all
  moreover from Alt.prems(3) have "s' \<in> set (steps a s) \<or> s' \<in> set (steps c s)" by simp
  ultimately show ?case using Alt.IH Alt.prems(2) by blast
next
  case (Grp i a)
  from Grp.prems(1) obtain lo hi where a: "a = Rep digit lo (Some hi)" and lo: "1 \<le> lo" and hi: "hi \<le> b i"
    by (cases a; cases "case a of Rep k lo hi \<Rightarrow> hi | _ \<Rightarrow> None") auto
  obtain g p xs where s: "s = (g, p, xs)" by (cases s)
  from Grp.prems(3) a s obtain j where j: "lo \<le> j" "j \<le> run_len digit (Some hi) xs"
     and s': "s' = ((i, rev (take (length (rev (take j xs) @ p) - length p) (rev (take j xs) @ p))) # g, rev (take j xs) @ p, drop j xs)"
    by (auto simp: advance_def)
  from rep_capture[OF j lo] hi have "digits_ok (b i) (rev (take (length (rev (take j xs) @ p) - length p) (rev (take j xs) @ p)))"
    by (auto simp: digits_ok_def)
  with Grp.prems(2) s s' show ?case by (auto simp: caps_inv_def)
next
  case (Chr k) then show ?case using steps_Chr_caps by metis
next
  case (Rep k lo hi) then show ?case using steps_Rep_caps by metis
next
  case (Lazy k lo hi) then show ?case using steps_Lazy_caps by metis
next
  case Eps then show ?case by simp
next
  case Bol then show ?case using steps_anchor_caps[of Bol] by metis
next
  case Eol then show ?case using steps_anchor_caps[of Eol] by metis
next
  case Wordb then show ?case using steps_anchor_caps[of Wordb] by metis
next
  case (NotBehind k) then show ?case using steps_anchor_caps[of "NotBehind k" k] by metis
next
  case (NotAhead k) then show ?case using steps_anchor_caps[of "NotAhead k" k] by metis
qed

lemma steps_caps_mono:
  "s' \<in> set (steps r s) \<Longrightarrow> fst ` set (fst s) \<subseteq> fst ` set (fst s')"
proof (induction r arbitrary: s s')
  case (Cat a c)
  from Cat.prems obtain s1 where "s1 \<in> set (steps a s)" "s' \<in> set (steps c s1)"
    using steps_Cat_elim by blast
  with Cat.IH show ?case by blast
next
  case (Alt a c)
  from Alt.prems have "s' \<in> set (steps a s) \<or> s' \<in> set (steps c s)" by simp
  with Alt.IH show ?case by blast
next
  case (Grp i a)
  obtain g p xs where s: "s = (g, p, xs)" by (cases s)
  from Grp.prems s obtain g1 p1 xs1 where s1: "(g1, p1, xs1) \<in> set (steps a s)"
    and s': "fst s' = (i, rev (take (length p1 - length p) p1)) # g1"
    by auto
  from Grp.IH[OF s1] have "fst ` set (fst s) \<subseteq> fst ` set g1" by simp
  with s' show ?case by auto
next
  case (Chr k) then show ?case using steps_Chr_caps by (metis subset_refl)
next
  case (Rep k lo hi) then show ?case using steps_Rep_caps by (metis subset_refl)
next
  case (Lazy k lo hi) then show ?case using steps_Lazy_caps by (metis subset_refl)
next
  case Eps then show ?case by simp
next
  case Bol then show ?case using steps_anchor_caps[of Bol] by (metis subset_refl)
next
  case Eol then show ?case using steps_anchor_caps[of Eol] by (metis subset_refl)
next
  case Wordb then show ?case using steps_anchor_caps[of Wordb] by (metis subset_refl)
next
  case (NotBehind k) then show ?case using steps_anchor_caps[of "NotBehind k" k] by (metis subset_refl)
next
  case (NotAhead k) then show ?case using steps_anchor_caps[of "NotAhead k" k] by (metis subset_refl)
qed

lemma steps_sets_grp:
  "sets_grp r i \<Longrightarrow> s' \<in> set (steps r s) \<Longrightarrow> i \<in> fst ` set (fst s')"
proof (induction r arbitrary: s s')
  case (Cat a c)
  from Cat.prems obtain s1 where s1: "s1 \<in> set (steps a s)" "s' \<in> set (steps c s1)"
    using steps_Cat_elim by blast
  from Cat.prems(1) have "sets_grp a i \<or> sets_grp c i" by simp
  then show ?case
  proof
    assume "sets_grp a i"
    from Cat.IH(1)[OF this s1(1)] steps_caps_mono[OF s1(2)] show ?thesis by blast
  next
    assume "sets_grp c i"
    from Cat.IH(2)[OF this s1(2)] show ?thesis .
  qed
next
  case (Alt a c)
  from Alt.prems have "s' \<in> set (steps a s) \<or> s' \<in> set (steps c s)" by simp
  moreover from Alt.prems(1) have "sets_grp a i" "sets_grp c i" by simp_all
  ultimately show ?case using Alt.IH by blast
next
  case (Grp j a)
  obtain g p xs where s: "s = (g, p, xs)" by (cases s)
  from Grp.prems s obtain g1 p1 xs1 where s1: "(g1, p1, xs1) \<in> set (steps a s)"
    and s': "fst s' = (j, rev (take (length p1 - length p) p1)) # g1"
    by auto
  show ?case
  proof (cases "i = j")
    case True with s' show ?thesis by simp
  next
    case False
    with Grp.prems(1) have "sets_grp a i" by simp
    from Grp.IH[OF this s1] s' show ?thesis by simp
  qed
qed simp_all

lemma search_Some:
  "search r p xs = Some m \<Longrightarrow> \<exists>p0 xs0 s'. s' \<in> set (steps r ([], p0, xs0)) \<and> m_grp m = fst s'"
proof (induction xs arbitrary: p)
  case Nil
  then show ?case
    by (cases "steps r ([], p, [])") (auto simp: mk_match_def split: prod.splits, (metis fst_conv list.set_intros(1))+)
next
  case (Cons x t)
  show ?case
  proof (cases "steps r ([], p, x # t)")
    case Nil
    with Cons.prems have "search r (x # p) t = Some m" by simp
    from Cons.IH[OF this] show ?thesis .
  next
    case (Cons s ss)
    with Cons.prems have "m = mk_match p s" by simp
    then have "m_grp m = fst s" by (cases s) (simp add: mk_match_def)
    moreover from Cons have "s \<in> set (steps r ([], p, x # t))" by simp
    ultimately show ?thesis by blast
  qed
qed

lemma group_digits:
  assumes "re_match r f = Some m" "caps_digit b r" "sets_grp r i"
  shows "digits_ok (b i) (group m i)"
proof -
  from assms(1) obtain p0 xs0 s' where s': "s' \<in> set (steps r ([], p0, xs0))" and g: "m_grp m = fst s'"
    unfolding re_match_def using search_Some by blast
  have inv: "caps_inv b (fst s')"
    using steps_caps_inv[OF assms(2) _ s'] by (simp add: caps_inv_def)
  from steps_sets_grp[OF assms(3) s'] g have "i \<in> fst ` set (m_grp m)" by simp
  then obtain v where v: "map_of (m_grp m) i = Some v"
    by (metis domD dom_map_of_conv_image_fst)
  then have "(i, v) \<in> set (m_grp m)" by (rule map_of_SomeD)
  with inv g have "digits_ok (b i) v" by (auto simp: caps_inv_def)
  with v show ?thesis by (simp add: group_def)
qed

lemma dec_foldl_bounds:
  "list_all (cls_ok digit) s \<Longrightarrow> 0 \<le> a \<Longrightarrow>
   0 \<le> foldl (\<lambda>a c. 10 * a + (c - 48)) a s \<and>
   foldl (\<lambda>a c. 10 * a + (c - 48)) a s < (a + 1) * 10 ^ length s"
proof (induction s arbitrary: a)
  case Nil
  then show ?case by simp
next
  case (Cons c s)
  from Cons.prems(1) have "cls_ok digit c" and rest: "list_all (cls_ok digit) s"
    by simp_all
  then have c: "48 \<le> c" "c \<le> 57" by (simp_all add: digit_def)
  let ?a = "10 * a + (c - 48)"
  from c Cons.prems(2) have a0: "0 \<le> ?a" by simp
  from Cons.IH[OF rest a0] have 1: "0 \<le> foldl (\<lambda>a c. 10 * a + (c - 48)) ?a s"
    and 2: "foldl (\<lambda>a c. 10 * a + (c - 48)) ?a s < (?a + 1) * 10 ^ length s" by simp_all
  from c have "?a + 1 \<le> (a + 1) * 10" by simp
  then have "(?a + 1) * 10 ^ length s \<le> ((a + 1) * 10) * 10 ^ length s"
    by (rule mult_right_mono) simp
  also have "\<dots> = (a + 1) * 10 ^ length (c # s)" by simp
  finally have le: "(?a + 1) * 10 ^ length s \<le> (a + 1) * 10 ^ length (c # s)" .
  from 2 le have "foldl (\<lambda>a c. 10 * a + (c - 48)) ?a s < (a + 1) * 10 ^ length (c # s)"
    by (rule less_le_trans)
  with 1 show ?case by simp
qed

lemma parseInt_digits:
  assumes "digits_ok n s"
  shows "\<exists>v. parseInt s = Num v \<and> 0 \<le> v \<and> v < 10 ^ n"
proof -
  from assms have ne: "s \<noteq> []" and len: "length s \<le> n" and all: "list_all (cls_ok digit) s"
    by (simp_all add: digits_ok_def)
  have nospace: "\<And>c. cls_ok digit c \<Longrightarrow> \<not> cls_ok space c"
    by (auto simp: digit_def space_def space_ranges_def)
  from ne all have "\<not> cls_ok space (hd s)" using nospace by (cases s) simp_all
  with ne have dw: "dropWhile (cls_ok space) s = s" by (cases s) simp_all
  from all have tw: "takeWhile (cls_ok digit) s = s" by (simp add: list_all_iff)
  have p: "parseInt s = Num (dec s)" using ne by (simp add: parseInt_def dw tw)
  from dec_foldl_bounds[OF all, of 0] have "0 \<le> dec s" "dec s < 10 ^ length s"
    by (simp_all add: dec_def)
  moreover from len have "(10::int) ^ length s \<le> 10 ^ n" by (simp add: power_increasing)
  ultimately have "0 \<le> dec s" "dec s < 10 ^ n" by linarith+
  with p show ?thesis by blast
qed
section \<open>Season and episode numbers\<close>

lemma patterns_caps:
  "\<forall>pat \<in> set patterns. caps_digit (\<lambda>_. 2) pat \<and> sets_grp pat 1 \<and> sets_grp pat 2"
  by (simp add: patterns_def se_pattern_def cjk_se_pattern_def season_episode_pattern_def
      x_pattern_def bracket_pattern_def d12_def lit_i_def js_def)

lemma episodeOnlyPatterns_caps:
  "\<forall>pat \<in> set episodeOnlyPatterns. caps_digit (\<lambda>_. 2) pat \<and> sets_grp pat 1"
  by (simp add: episodeOnlyPatterns_def d12_def lit_i_def js_def)

lemma captured_number:
  assumes "re_match r f = Some m" "caps_digit b r" "sets_grp r i"
  shows "\<exists>v. parseInt (group m i) = Num v \<and> 0 \<le> v \<and> v < 10 ^ b i"
  using group_digits[OF assms] by (rule parseInt_digits)

lemma episode_only_loop_ok:
  "\<forall>pat \<in> set pats. caps_digit (\<lambda>_. 2) pat \<and> sets_grp pat 1 \<Longrightarrow>
   se_season (episode_only_loop pats f) = None \<and>
   at_most (se_episode (episode_only_loop pats f)) 200"
proof (induction pats)
  case Nil
  then show ?case by simp
next
  case (Cons pat pats)
  then have IH: "se_season (episode_only_loop pats f) = None \<and>
      at_most (se_episode (episode_only_loop pats f)) 200" by simp
  show ?case
  proof (cases "re_match pat f")
    case None
    with IH show ?thesis by simp
  next
    case (Some m)
    from Cons.prems have "caps_digit (\<lambda>_. 2) pat" "sets_grp pat 1" by simp_all
    from captured_number[OF Some this] obtain v
      where v: "parseInt (group m 1) = Num v" "0 \<le> v" by blast
    show ?thesis using Some v IH by (simp add: Let_def)
  qed
qed

lemma season_episode_loop_ok:
  "\<forall>pat \<in> set pats. caps_digit (\<lambda>_. 2) pat \<and> sets_grp pat 1 \<and> sets_grp pat 2 \<Longrightarrow>
   at_most (se_season (season_episode_loop pats f)) 50 \<and>
   at_most (se_episode (season_episode_loop pats f)) 200"
proof (induction pats)
  case Nil
  then show ?case using episode_only_loop_ok[OF episodeOnlyPatterns_caps, of f] by simp
next
  case (Cons pat pats)
  then have IH: "at_most (se_season (season_episode_loop pats f)) 50 \<and>
      at_most (se_episode (season_episode_loop pats f)) 200" by simp
  show ?case
  proof (cases "re_match pat f")
    case None
    with IH show ?thesis by simp
  next
    case (Some m)
    from Cons.prems have c: "caps_digit (\<lambda>_. 2) pat" and g1: "sets_grp pat 1" and g2: "sets_grp pat 2"
      by simp_all
    from captured_number[OF Some c g1] obtain s
      where s: "parseInt (group m 1) = Num s" "0 \<le> s" by blast
    from captured_number[OF Some c g2] obtain e
      where e: "parseInt (group m 2) = Num e" "0 \<le> e" by blast
    show ?thesis using Some s e IH by (simp add: Let_def)
  qed
qed

lemma extractSeasonEpisode_bounds:
  "at_most (se_season (extractSeasonEpisode f)) 50 \<and>
   at_most (se_episode (extractSeasonEpisode f)) 200"
  unfolding extractSeasonEpisode_def by (rule season_episode_loop_ok[OF patterns_caps])

lemma pa_se_re_caps:
  "caps_digit (\<lambda>i. if i = 1 then 2 else 3) pa_se_re \<and> sets_grp pa_se_re 1 \<and> sets_grp pa_se_re 2"
  by (simp add: pa_se_re_def d12_def lit_i_def js_def)

lemma pa_episode_re_caps:
  "caps_digit (\<lambda>i. 3) pa_episode_re \<and> sets_grp pa_episode_re 1"
  by (simp add: pa_episode_re_def lit_i_def js_def opt_def)

lemma analyzeFileName_fields:
  "md_season (analyzeFileName f) =
     (case re_match pa_se_re f of Some m \<Rightarrow> Some (parseInt (group m 1)) | None \<Rightarrow> None)"
  "md_episode (analyzeFileName f) =
     (case re_match pa_se_re f of
        Some m \<Rightarrow> Some (parseInt (group m 2))
      | None \<Rightarrow> (case re_match pa_episode_re f of
                   Some m \<Rightarrow> Some (parseInt (group m 1)) | None \<Rightarrow> None))"
  "md_type (analyzeFileName f) =
     (if re_match pa_se_re f = None \<and> re_match pa_episode_re f = None then Movie else Episode)"
  by (simp_all add: analyzeFileName_def Let_def split: option.splits)

lemma analyzeFileName_bounds:
  "at_most (md_season (analyzeFileName f)) 99 \<and> at_most (md_episode (analyzeFileName f)) 999"
proof (cases "re_match pa_se_re f")
  case (Some m)
  from captured_number[OF Some, of "\<lambda>i. if i = 1 then 2 else 3" 1] pa_se_re_caps
  obtain s where s: "parseInt (group m 1) = Num s" "0 \<le> s" "s < 100" by auto
  from captured_number[OF Some, of "\<lambda>i. if i = 1 then 2 else 3" 2] pa_se_re_caps
  obtain e where e: "parseInt (group m 2) = Num e" "0 \<le> e" "e < 1000" by auto
  show ?thesis using Some s e by (simp add: analyzeFileName_fields)
next
  case None
  show ?thesis
  proof (cases "re_match pa_episode_re f")
    case (Some m)
    from captured_number[OF Some, of "\<lambda>i. 3" 1] pa_episode_re_caps
    obtain e where e: "parseInt (group m 1) = Num e" "0 \<le> e" "e < 1000" by auto
    show ?thesis using None Some e by (simp add: analyzeFileName_fields)
  next
    case N2: None
    show ?thesis using None N2 by (simp add: analyzeFileName_fields)
  qed
qed

text \<open>
  C2 (as amended). The parser of ContentDetector reports a season only between 0 and 50
  and an episode only between 0 and 200, and a pattern whose match lies outside these
  bounds is skipped in favour of the next pattern. The parser of PathAnalyzer has no such
  guard: its numbers are bounded by the digits its patterns read, 99 and 999.
\<close>

theorem C2_season_episode_bounds:
  "at_most (se_season (extractSeasonEpisode f)) 50 \<and>
   at_most (se_episode (extractSeasonEpisode f)) 200 \<and>
   (re_match pat f = Some m \<and>
      (gt (parseInt (group m 1)) 50 \<or> gt (parseInt (group m 2)) 200) \<longrightarrow>
      season_episode_loop (pat # pats) f = season_episode_loop pats f) \<and>
   at_most (md_season (analyzeFileName f)) 99 \<and>
   at_most (md_episode (analyzeFileName f)) 999"
  using extractSeasonEpisode_bounds[of f] analyzeFileName_bounds[of f]
  by (auto simp: Let_def)

theorem C2_season_episode_bounds_witness:
  "re_match se_pattern (js ''S60E01'') =
     Some \<lparr>m_pre = [], m_grp = [(2, js ''01''), (1, js ''60'')],
           m_all = js ''S60E01'', m_rest = []\<rparr> \<and>
   gt (parseInt (js ''60'')) 50 \<and>
   season_episode_loop [se_pattern, x_pattern] (js ''S60E01'') =
     season_episode_loop [x_pattern] (js ''S60E01'') \<and>
   extractSeasonEpisode (js ''S60E01'') = \<lparr>se_season = None, se_episode = Some (Num 1)\<rparr>"
proof -
  have m: "re_match se_pattern (js ''S60E01'') =
     Some \<lparr>m_pre = [], m_grp = [(2, js ''01''), (1, js ''60'')],
           m_all = js ''S60E01'', m_rest = []\<rparr>"
    by code_simp
  have g: "gt (parseInt (group \<lparr>m_pre = [], m_grp = [(2, js ''01''), (1, js ''60'')],
           m_all = js ''S60E01'', m_rest = []\<rparr> 1)) 50"
    by code_simp
  have g': "gt (parseInt (js ''60'')) 50" by code_simp
  have e: "extractSeasonEpisode (js ''S60E01'') = \<lparr>se_season = None, se_episode = Some (Num 1)\<rparr>"
    by code_simp
  from C2_season_episode_bounds[of "js ''S60E01''" se_pattern _ "[x_pattern]"] m g
  have "season_episode_loop [se_pattern, x_pattern] (js ''S60E01'') =
     season_episode_loop [x_pattern] (js ''S60E01'')" by blast
  with m g' e show ?thesis by blast
qed

theorem C2_counterexample:
  "md_season (analyzeFileName (js ''Show.S99E250.mkv'')) = Some (Num 99) \<and>
   md_episode (analyzeFileName (js ''Show.S99E250.mkv'')) = Some (Num 250) \<and>
   \<not> at_most (md_season (analyzeFileName (js ''Show.S99E250.mkv''))) 50 \<and>
   \<not> at_most (md_episode (analyzeFileName (js ''Show.S99E250.mkv''))) 200"
  by code_simp

lemma se_token_loop:
  assumes "se_token f = Some (Num s, Num e)" "s \<le> 50" "e \<le> 200"
  shows "season_episode_loop (se_pattern # pats) f = \<lparr>se_season = Some (Num s), se_episode = Some (Num e)\<rparr>"
proof -
  from assms(1) obtain m where m: "re_match se_pattern f = Some m"
    and g: "parseInt (group m 1) = Num s" "parseInt (group m 2) = Num e"
    by (auto simp: se_token_def split: option.splits)
  show ?thesis using m g assms(2,3) by (simp add: Let_def)
qed

lemma concat_map_concat:
  "concat (map f (concat (map g xs))) = concat (map (\<lambda>x. concat (map f (g x))) xs)"
  by (induction xs) simp_all

lemma steps_Cat_fun: "steps (Cat a b) = (\<lambda>s. concat (map (steps b) (steps a s)))"
  by (rule ext) simp

lemma steps_regroup:
  "steps (Cat a (Cat b (Cat c d))) s = concat (map (steps d) (steps (Cat a (Cat b c)) s))"
  by (simp add: steps_Cat_fun concat_map_concat)

lemma se_pattern_split: "steps se_pattern s = concat (map (steps (Grp 2 (Rep digit 1 (Some 2)))) (steps se_head s))"
proof -
  have "se_pattern = Cat (Chr (both_cases 83)) (Cat (Grp 1 d12) (Cat (Chr (both_cases 69))
          (Grp 2 (Rep digit 1 (Some 2)))))"
    by (simp add: se_pattern_def d12_def lit_i_def js_def)
  then show ?thesis unfolding se_head_def by (simp only: steps_regroup [symmetric])
qed

lemma pa_se_re_split: "steps pa_se_re s = concat (map (steps (Grp 2 (Rep digit 1 (Some 3)))) (steps se_head s))"
proof -
  have "pa_se_re = Cat (Chr (both_cases 83)) (Cat (Grp 1 d12) (Cat (Chr (both_cases 69))
          (Grp 2 (Rep digit 1 (Some 3)))))"
    by (simp add: pa_se_re_def d12_def lit_i_def js_def)
  then show ?thesis unfolding se_head_def by (simp only: steps_regroup [symmetric])
qed

lemma steps_group2_none:
  "takeWhile (cls_ok digit) (snd (snd q)) = [] \<Longrightarrow> steps (Grp 2 (Rep digit 1 (Some k))) q = []"
  by (cases q) (simp add: run_len_def)

lemma steps_group2_head:
  assumes "takeWhile (cls_ok digit) (snd (snd q)) \<noteq> []" "1 \<le> k"
  shows "\<exists>ss. steps (Grp 2 (Rep digit 1 (Some k))) q =
           capture2 q (min k (length (takeWhile (cls_ok digit) (snd (snd q))))) # ss"
proof -
  obtain g p xs where q: "q = (g, p, xs)" by (cases q)
  let ?n = "length (takeWhile (cls_ok digit) xs)"
  let ?j = "min k ?n"
  from assms q have n: "1 \<le> ?n" by (cases "takeWhile (cls_ok digit) xs") simp_all
  with assms(2) have j: "1 \<le> ?j" by simp
  have r: "run_len digit (Some k) xs = ?j" by (simp add: run_len_def)
  from j obtain j' where j': "?j = Suc j'" by (cases ?j) simp_all
  have u: "rev [1 ..< Suc ?j] = ?j # rev [1 ..< ?j]" unfolding j' by simp
  have jl: "?j \<le> length xs" using length_takeWhile_le[of "cls_ok digit" xs] by simp
  have c: "(\<lambda>(g', p', xs'). ((2, rev (take (length p' - length p) p')) # g', p', xs'))
             (advance (g, p, xs) ?j) = capture2 (g, p, xs) ?j"
    using jl by (simp add: advance_def capture2_def)
  have "steps (Grp 2 (Rep digit 1 (Some k))) (g, p, xs) =
      map (\<lambda>(g', p', xs'). ((2, rev (take (length p' - length p) p')) # g', p', xs'))
        (map (advance (g, p, xs)) (rev [1 ..< Suc ?j]))"
    by (simp only: steps.simps snd_conv r)
  also have "\<dots> = capture2 (g, p, xs) ?j #
      map (\<lambda>(g', p', xs'). ((2, rev (take (length p' - length p) p')) # g', p', xs'))
        (map (advance (g, p, xs)) (rev [1 ..< ?j]))"
    unfolding u list.map c ..
  finally show ?thesis unfolding q by simp
qed

lemma third_digit:
  assumes "3 \<le> length (takeWhile (cls_ok digit) xs)"
  shows "followed_by_digit (drop 2 xs)"
proof -
  let ?w = "takeWhile (cls_ok digit) xs"
  from assms have "2 < length ?w" by simp
  then have "?w ! 2 \<in> set ?w" by (rule nth_mem)
  then have d: "cls_ok digit (?w ! 2)" by (rule set_takeWhileD[THEN conjunct2])
  from assms have "?w ! 2 = xs ! 2" by (simp add: takeWhile_nth)
  with d have d': "cls_ok digit (xs ! 2)" by simp
  from assms length_takeWhile_le[of "cls_ok digit" xs] have "2 < length xs" by simp
  then have "drop 2 xs = xs ! 2 # drop 3 xs"
    by (metis Cons_nth_drop_Suc eval_nat_numeral(3))
  with d' show ?thesis by (simp add: followed_by_digit_def)
qed

lemma group2_empty:
  "(concat (map (steps (Grp 2 (Rep digit 1 (Some 2)))) Q) = []) =
   (concat (map (steps (Grp 2 (Rep digit 1 (Some 3)))) Q) = [])"
proof (induction Q)
  case Nil
  show ?case by simp
next
  case (Cons q Q)
  show ?case
  proof (cases "takeWhile (cls_ok digit) (snd (snd q)) = []")
    case True
    have "steps (Grp 2 (Rep digit 1 (Some 2))) q = []" "steps (Grp 2 (Rep digit 1 (Some 3))) q = []"
      using True by (rule steps_group2_none)+
    with Cons.IH show ?thesis by (simp only: list.map concat.simps append_Nil)
  next
    case False
    from steps_group2_head[OF False, of 2] obtain ss2 where
      s2: "steps (Grp 2 (Rep digit 1 (Some 2))) q = capture2 q (min 2 (length (takeWhile (cls_ok digit) (snd (snd q))))) # ss2" by auto
    from steps_group2_head[OF False, of 3] obtain ss3 where
      s3: "steps (Grp 2 (Rep digit 1 (Some 3))) q = capture2 q (min 3 (length (takeWhile (cls_ok digit) (snd (snd q))))) # ss3" by auto
    show ?thesis unfolding list.map concat.simps s2 s3 by simp
  qed
qed

lemma group2_head:
  "concat (map (steps (Grp 2 (Rep digit 1 (Some 2)))) Q) = st # rest \<Longrightarrow>
   \<not> followed_by_digit (snd (snd st)) \<Longrightarrow>
   \<exists>rest'. concat (map (steps (Grp 2 (Rep digit 1 (Some 3)))) Q) = st # rest'"
proof (induction Q)
  case Nil
  then show ?case by simp
next
  case (Cons q Q)
  let ?n = "length (takeWhile (cls_ok digit) (snd (snd q)))"
  show ?case
  proof (cases "takeWhile (cls_ok digit) (snd (snd q)) = []")
    case True
    have e: "steps (Grp 2 (Rep digit 1 (Some 2))) q = []" "steps (Grp 2 (Rep digit 1 (Some 3))) q = []"
      using True by (rule steps_group2_none)+
    from Cons.prems(1) have "concat (map (steps (Grp 2 (Rep digit 1 (Some 2)))) Q) = st # rest"
      unfolding list.map concat.simps e append_Nil .
    from Cons.IH[OF this Cons.prems(2)] show ?thesis
      unfolding list.map concat.simps e append_Nil .
  next
    case False
    from steps_group2_head[OF False, of 2] obtain ss2 where
      s2: "steps (Grp 2 (Rep digit 1 (Some 2))) q = capture2 q (min 2 ?n) # ss2" by auto
    from steps_group2_head[OF False, of 3] obtain ss3 where
      s3: "steps (Grp 2 (Rep digit 1 (Some 3))) q = capture2 q (min 3 ?n) # ss3" by auto
    from Cons.prems(1) have st: "st = capture2 q (min 2 ?n)"
      unfolding list.map concat.simps s2 by simp
    have "?n \<le> 2"
    proof (rule ccontr)
      assume "\<not> ?n \<le> 2"
      then have n3: "3 \<le> ?n" by simp
      then have "min 2 ?n = 2" by simp
      with st have "snd (snd st) = drop 2 (snd (snd q))"
        by (cases q) (simp add: capture2_def)
      with third_digit[OF n3] Cons.prems(2) show False by simp
    qed
    then have "min 3 ?n = min 2 ?n" by simp
    with st show ?thesis unfolding list.map concat.simps s3 by simp
  qed
qed

lemma search_pa_se:
  "search se_pattern p xs = Some m \<Longrightarrow> \<not> followed_by_digit (m_rest m) \<Longrightarrow>
   search pa_se_re p xs = Some m"
proof (induction xs arbitrary: p)
  case Nil
  show ?case
  proof (cases "steps se_pattern ([], p, [])")
    case Nil
    with Nil.prems show ?thesis by simp
  next
    case (Cons st rest)
    with Nil.prems have m: "m = mk_match p st" by simp
    then have "m_rest m = snd (snd st)" by (cases st) (simp add: mk_match_def)
    with Nil.prems(2) have nd: "\<not> followed_by_digit (snd (snd st))" by simp
    from Cons have "concat (map (steps (Grp 2 (Rep digit 1 (Some 2)))) (steps se_head ([], p, []))) = st # rest"
      by (simp only: se_pattern_split)
    from group2_head[OF this nd] obtain rest' where
      "steps pa_se_re ([], p, []) = st # rest'" by (auto simp only: pa_se_re_split)
    with m show ?thesis by simp
  qed
next
  case (Cons x t)
  show ?case
  proof (cases "steps se_pattern ([], p, x # t)")
    case Nil
    then have "concat (map (steps (Grp 2 (Rep digit 1 (Some 2)))) (steps se_head ([], p, x # t))) = []"
      by (simp only: se_pattern_split)
    then have "steps pa_se_re ([], p, x # t) = []"
      by (simp only: pa_se_re_split group2_empty)
    moreover from Nil Cons.prems(1) have "search se_pattern (x # p) t = Some m" by simp
    from Cons.IH[OF this Cons.prems(2)] have "search pa_se_re (x # p) t = Some m" .
    ultimately show ?thesis by simp
  next
    case (Cons st rest)
    with Cons.prems have m: "m = mk_match p st" by simp
    then have "m_rest m = snd (snd st)" by (cases st) (simp add: mk_match_def)
    with Cons.prems(2) have nd: "\<not> followed_by_digit (snd (snd st))" by simp
    from Cons have "concat (map (steps (Grp 2 (Rep digit 1 (Some 2)))) (steps se_head ([], p, x # t))) = st # rest"
      by (simp only: se_pattern_split)
    from group2_head[OF this nd] obtain rest' where
      "steps pa_se_re ([], p, x # t) = st # rest'" by (auto simp only: pa_se_re_split)
    with m show ?thesis by simp
  qed
qed

lemma pa_se_token_delimited:
  assumes "se_token f = Some (s, e)" "se_delimited f"
  shows "pa_se_token f = Some (s, e)"
proof -
  from assms(1) obtain m where m: "re_match se_pattern f = Some m"
    and g: "s = parseInt (group m 1)" "e = parseInt (group m 2)"
    by (auto simp: se_token_def split: option.splits)
  from assms(2) m have "\<not> followed_by_digit (m_rest m)" by (simp add: se_delimited_def)
  with m have "re_match pa_se_re f = Some m" unfolding re_match_def by (rule search_pa_se)
  with g show ?thesis by (simp add: pa_se_token_def)
qed

text \<open>
  C5 (as amended). When the leftmost match of \<open>S(\d{1,2})E(\d{1,2})\<close> in a name captures
  a season of at most 50 and an episode of at most 200, the parser of ContentDetector
  returns exactly that pair. The parser of PathAnalyzer returns the pair of that match,
  with the type episode, when the match is not directly followed by a further digit; in
  general it matches \<open>S(\d{1,2})E(\d{1,3})\<close> and returns the pair this pattern captures,
  with up to three episode digits.
\<close>

theorem C5_se_token_returned:
  "(se_token f = Some (Num s, Num e) \<and> s \<le> 50 \<and> e \<le> 200 \<longrightarrow>
      extractSeasonEpisode f = \<lparr>se_season = Some (Num s), se_episode = Some (Num e)\<rparr>) \<and>
   (se_token f = Some (s', e') \<and> se_delimited f \<longrightarrow>
      md_season (analyzeFileName f) = Some s' \<and> md_episode (analyzeFileName f) = Some e' \<and>
      md_type (analyzeFileName f) = Episode) \<and>
   (pa_se_token f = Some (s'', e'') \<longrightarrow>
      md_season (analyzeFileName f) = Some s'' \<and> md_episode (analyzeFileName f) = Some e'' \<and>
      md_type (analyzeFileName f) = Episode)"
proof -
  have pa: "md_season (analyzeFileName f) = Some a \<and> md_episode (analyzeFileName f) = Some b \<and>
      md_type (analyzeFileName f) = Episode" if "pa_se_token f = Some (a, b)" for a b
    using that by (auto simp: pa_se_token_def analyzeFileName_fields split: option.splits)
  have c1: "se_token f = Some (Num s, Num e) \<and> s \<le> 50 \<and> e \<le> 200 \<longrightarrow>
      extractSeasonEpisode f = \<lparr>se_season = Some (Num s), se_episode = Some (Num e)\<rparr>"
    unfolding extractSeasonEpisode_def patterns_def using se_token_loop by blast
  have c2: "se_token f = Some (s', e') \<and> se_delimited f \<longrightarrow>
      md_season (analyzeFileName f) = Some s' \<and> md_episode (analyzeFileName f) = Some e' \<and>
      md_type (analyzeFileName f) = Episode"
    using pa pa_se_token_delimited by blast
  have c3: "pa_se_token f = Some (s'', e'') \<longrightarrow>
      md_season (analyzeFileName f) = Some s'' \<and> md_episode (analyzeFileName f) = Some e'' \<and>
      md_type (analyzeFileName f) = Episode"
    using pa by blast
  from c1 c2 c3 show ?thesis by (intro conjI)
qed

theorem C5_se_token_returned_witness:
  "se_token (js ''Show.S02E05.1080p.mkv'') = Some (Num 2, Num 5) \<and>
   se_delimited (js ''Show.S02E05.1080p.mkv'') \<and>
   pa_se_token (js ''Show.S01E100.mkv'') = Some (Num 1, Num 100) \<and>
   extractSeasonEpisode (js ''Show.S02E05.1080p.mkv'') =
     \<lparr>se_season = Some (Num 2), se_episode = Some (Num 5)\<rparr> \<and>
   md_season (analyzeFileName (js ''Show.S02E05.1080p.mkv'')) = Some (Num 2) \<and>
   md_episode (analyzeFileName (js ''Show.S02E05.1080p.mkv'')) = Some (Num 5) \<and>
   md_type (analyzeFileName (js ''Show.S02E05.1080p.mkv'')) = Episode \<and>
   md_episode (analyzeFileName (js ''Show.S01E100.mkv'')) = Some (Num 100)"
proof -
  have t: "se_token (js ''Show.S02E05.1080p.mkv'') = Some (Num 2, Num 5)" by code_simp
  have d: "se_delimited (js ''Show.S02E05.1080p.mkv'')" by code_simp
  have p: "pa_se_token (js ''Show.S01E100.mkv'') = Some (Num 1, Num 100)" by code_simp
  from C5_se_token_returned[of "js ''Show.S02E05.1080p.mkv''" 2 5 "Num 2" "Num 5"] t d
  have a: "extractSeasonEpisode (js ''Show.S02E05.1080p.mkv'') =
       \<lparr>se_season = Some (Num 2), se_episode = Some (Num 5)\<rparr>"
    and b: "md_season (analyzeFileName (js ''Show.S02E05.1080p.mkv'')) = Some (Num 2) \<and>
       md_episode (analyzeFileName (js ''Show.S02E05.1080p.mkv'')) = Some (Num 5) \<and>
       md_type (analyzeFileName (js ''Show.S02E05.1080p.mkv'')) = Episode"
    by simp_all
  from C5_se_token_returned[where f = "js ''Show.S01E100.mkv''" and s'' = "Num 1" and e'' = "Num 100"] p
  have c: "md_episode (analyzeFileName (js ''Show.S01E100.mkv'')) = Some (Num 100)"
    by simp
  from t d p a b c show ?thesis by (intro conjI) simp_all
qed

theorem C5_counterexample:
  "se_token (js ''Show.S01E100.mkv'') = Some (Num 1, Num 10) \<and>
   md_season (analyzeFileName (js ''Show.S01E100.mkv'')) = Some (Num 1) \<and>
   md_episode (analyzeFileName (js ''Show.S01E100.mkv'')) = Some (Num 100)"
  by code_simp

section \<open>analyzeFile\<close>

lemma analyzeFile_type:
  "fa_type (analyzeFile file) =
     (if truthy (se_season (extractSeasonEpisode (name file))) \<or>
         truthy (se_episode (extractSeasonEpisode (name file)))
      then Episode else Movie)"
  by (simp add: analyzeFile_def Let_def)

lemma analyzeFile_never_unknown: "fa_type (analyzeFile file) \<noteq> Unknown"
  by (simp add: analyzeFile_type)

text \<open>
  C10. In the name \<open>Show.S00E00.mkv\<close> the parser finds season 0 and episode 0, and
  \<open>analyzeFile\<close> classifies the file as a movie: both numbers are falsy in its test.
\<close>

theorem C10_zero_numbers_are_a_movie:
  "extractSeasonEpisode (js ''Show.S00E00.mkv'') =
     \<lparr>se_season = Some (Num 0), se_episode = Some (Num 0)\<rparr> \<and>
   fa_type (analyzeFile (file_of ''Show.S00E00.mkv'')) = Movie"
  by code_simp

section \<open>Directory verdicts\<close>

lemma analyzeDirectory_step_movieCount:
  "movieCount (analyzeDirectory_step cfg lower st it) =
     movieCount st + (if movie_evidence cfg lower it then 1 else 0)"
proof (cases "is_dir it")
  case True
  then show ?thesis
    by (simp add: analyzeDirectory_step_def movie_evidence_def Let_def)
next
  case False
  then show ?thesis
    by (cases "fa_type (analyzeFile it)")
       (simp_all add: analyzeDirectory_step_def movie_evidence_def Let_def)
qed

lemma analyzeDirectory_step_tvCount:
  "tvCount (analyzeDirectory_step cfg lower st it) =
     tvCount st + (if tv_evidence cfg lower it then 1 else 0)"
proof (cases "is_dir it")
  case True
  then show ?thesis
    by (simp add: analyzeDirectory_step_def tv_evidence_def Let_def)
next
  case False
  then show ?thesis
    by (cases "fa_type (analyzeFile it)")
       (simp_all add: analyzeDirectory_step_def tv_evidence_def Let_def)
qed

lemma analyzeDirectory_loop_counts:
  "movieCount (foldl (analyzeDirectory_step cfg lower) st items) =
     movieCount st + movie_tally cfg lower items \<and>
   tvCount (foldl (analyzeDirectory_step cfg lower) st items) =
     tvCount st + tv_tally cfg lower items"
proof (induction items arbitrary: st)
  case Nil
  show ?case by (simp add: movie_tally_def tv_tally_def)
next
  case (Cons it items)
  show ?case
    using Cons.IH[of "analyzeDirectory_step cfg lower st it"]
    by (simp add: analyzeDirectory_step_movieCount analyzeDirectory_step_tvCount
        movie_tally_def tv_tally_def)
qed

lemma analyzeDirectory_primaryType:
  "da_primaryType (analyzeDirectory cfg lower items) =
     primaryType_of (movie_tally cfg lower items) (tv_tally cfg lower items)"
  using analyzeDirectory_loop_counts[of cfg lower dir_loop_init items]
  by (simp add: analyzeDirectory_def Let_def dir_loop_init_def)

lemma filter_pos_iff: "(0 < length (filter P xs)) = list_ex P xs"
  by (simp add: list_ex_iff filter_empty_conv)

lemma filter_pos_nonempty: "0 < length (filter P xs) \<Longrightarrow> 0 < length xs"
  by (cases xs) simp_all

lemma analyzeDirectoryType_cases:
  "analyzeDirectoryType p =
     (if movie_files p > 0 \<and> episode_files p = 0 then movie_collection
      else if episode_files p > 0 \<and> movie_files p = 0 then tv_season
      else if movie_files p > 0 \<and> episode_files p > 0 then mixed_content
      else if pi_subdirectories p \<noteq> [] \<and> pi_videoFiles p = [] then
        (if has_subdir Seasons p then tv_show
         else if has_subdir Movies p then movie_library
         else content_library)
      else unknown_dir)"
proof -
  let ?m = "length (filter (\<lambda>f. md_type (vf_metadata f) = Movie) (pi_videoFiles p))"
  let ?e = "length (filter (\<lambda>f. md_type (vf_metadata f) = Episode) (pi_videoFiles p))"
  have m: "0 < ?m \<Longrightarrow> 0 < length (pi_videoFiles p)" by (rule filter_pos_nonempty)
  have e: "0 < ?e \<Longrightarrow> 0 < length (pi_videoFiles p)" by (rule filter_pos_nonempty)
  have 1: "(0 < length (pi_videoFiles p) \<and> 0 < ?m \<and> ?e = 0) = (0 < ?m \<and> ?e = 0)"
    using m by blast
  have 2: "(0 < length (pi_videoFiles p) \<and> 0 < ?e \<and> ?m = 0) = (0 < ?e \<and> ?m = 0)"
    using e by blast
  have 3: "(0 < length (pi_videoFiles p) \<and> 0 < ?m \<and> 0 < ?e) = (0 < ?m \<and> 0 < ?e)"
    using e by blast
  show ?thesis
    unfolding analyzeDirectoryType_def Let_def movie_files_def episode_files_def has_subdir_def
      1 2 3 filter_pos_iff
    by simp
qed
text \<open>
  C6 (as amended). \<open>analyzeDirectory\<close> compares the two tallies: more movie evidence
  gives movie, more tv evidence gives tv, equal and nonzero gives mixed, both zero gives
  unknown. \<open>_analyzeDirectoryType\<close> does not compare: movie-typed files only give
  movie_collection, episode-typed files only give tv_season, both present give
  mixed_content whatever the counts; without video files a season subdirectory gives
  tv_show, else a movies subdirectory gives movie_library, else any subdirectory gives
  content_library, else unknown.
\<close>

theorem C6_directory_verdicts:
  "(movie_tally cfg lower items > tv_tally cfg lower items \<longrightarrow>
      da_primaryType (analyzeDirectory cfg lower items) = pt_movie) \<and>
   (tv_tally cfg lower items > movie_tally cfg lower items \<longrightarrow>
      da_primaryType (analyzeDirectory cfg lower items) = pt_tv) \<and>
   (movie_tally cfg lower items = tv_tally cfg lower items \<and> movie_tally cfg lower items > 0 \<longrightarrow>
      da_primaryType (analyzeDirectory cfg lower items) = pt_mixed) \<and>
   (movie_tally cfg lower items = 0 \<and> tv_tally cfg lower items = 0 \<longrightarrow>
      da_primaryType (analyzeDirectory cfg lower items) = pt_unknown) \<and>
   (movie_files p > 0 \<and> episode_files p = 0 \<longrightarrow> analyzeDirectoryType p = movie_collection) \<and>
   (episode_files p > 0 \<and> movie_files p = 0 \<longrightarrow> analyzeDirectoryType p = tv_season) \<and>
   (movie_files p > 0 \<and> episode_files p > 0 \<longrightarrow> analyzeDirectoryType p = mixed_content) \<and>
   (pi_videoFiles p = [] \<and> has_subdir Seasons p \<longrightarrow> analyzeDirectoryType p = tv_show) \<and>
   (pi_videoFiles p = [] \<and> \<not> has_subdir Seasons p \<and> has_subdir Movies p \<longrightarrow>
      analyzeDirectoryType p = movie_library) \<and>
   (pi_videoFiles p = [] \<and> \<not> has_subdir Seasons p \<and> \<not> has_subdir Movies p \<and>
      pi_subdirectories p \<noteq> [] \<longrightarrow> analyzeDirectoryType p = content_library) \<and>
   (pi_videoFiles p = [] \<and> pi_subdirectories p = [] \<longrightarrow> analyzeDirectoryType p = unknown_dir)"
proof -
  have pt: "da_primaryType (analyzeDirectory cfg lower items) =
     primaryType_of (movie_tally cfg lower items) (tv_tally cfg lower items)"
    by (rule analyzeDirectory_primaryType)
  have v: "pi_videoFiles p = [] \<Longrightarrow> movie_files p = 0 \<and> episode_files p = 0"
    by (simp add: movie_files_def episode_files_def)
  have s: "pi_subdirectories p = [] \<Longrightarrow> \<not> has_subdir Seasons p \<and> \<not> has_subdir Movies p"
    by (simp add: has_subdir_def)
  have 1: "movie_tally cfg lower items > tv_tally cfg lower items \<longrightarrow>
      da_primaryType (analyzeDirectory cfg lower items) = pt_movie"
    by (simp add: pt primaryType_of_def)
  have 2: "tv_tally cfg lower items > movie_tally cfg lower items \<longrightarrow>
      da_primaryType (analyzeDirectory cfg lower items) = pt_tv"
    by (simp add: pt primaryType_of_def)
  have 3: "movie_tally cfg lower items = tv_tally cfg lower items \<and> movie_tally cfg lower items > 0 \<longrightarrow>
      da_primaryType (analyzeDirectory cfg lower items) = pt_mixed"
    by (simp add: pt primaryType_of_def)
  have 4: "movie_tally cfg lower items = 0 \<and> tv_tally cfg lower items = 0 \<longrightarrow>
      da_primaryType (analyzeDirectory cfg lower items) = pt_unknown"
    by (simp add: pt primaryType_of_def)
  have 5: "movie_files p > 0 \<and> episode_files p = 0 \<longrightarrow> analyzeDirectoryType p = movie_collection"
    by (simp add: analyzeDirectoryType_cases)
  have 6: "episode_files p > 0 \<and> movie_files p = 0 \<longrightarrow> analyzeDirectoryType p = tv_season"
    by (simp add: analyzeDirectoryType_cases)
  have 7: "movie_files p > 0 \<and> episode_files p > 0 \<longrightarrow> analyzeDirectoryType p = mixed_content"
    by (simp add: analyzeDirectoryType_cases)
  have 8: "pi_videoFiles p = [] \<and> has_subdir Seasons p \<longrightarrow> analyzeDirectoryType p = tv_show"
    using v s by (cases "pi_subdirectories p = []") (simp_all add: analyzeDirectoryType_cases)
  have 9: "pi_videoFiles p = [] \<and> \<not> has_subdir Seasons p \<and> has_subdir Movies p \<longrightarrow>
      analyzeDirectoryType p = movie_library"
    using v s by (cases "pi_subdirectories p = []") (simp_all add: analyzeDirectoryType_cases)
  have 10: "pi_videoFiles p = [] \<and> \<not> has_subdir Seasons p \<and> \<not> has_subdir Movies p \<and>
      pi_subdirectories p \<noteq> [] \<longrightarrow> analyzeDirectoryType p = content_library"
    using v by (simp add: analyzeDirectoryType_cases)
  have 11: "pi_videoFiles p = [] \<and> pi_subdirectories p = [] \<longrightarrow> analyzeDirectoryType p = unknown_dir"
    using v by (simp add: analyzeDirectoryType_cases)
  show ?thesis by (intro conjI) (fact 1 2 3 4 5 6 7 8 9 10 11)+
qed

theorem C6_directory_verdicts_witness:
  "movie_files (dir_with [video_of ''a.mkv'', video_of ''b.mkv'', video_of ''c.mkv''] []) = 3 \<and>
   episode_files (dir_with [video_of ''a.mkv'', video_of ''b.mkv'', video_of ''c.mkv''] []) = 0 \<and>
   analyzeDirectoryType (dir_with [video_of ''a.mkv'', video_of ''b.mkv'', video_of ''c.mkv''] [])
     = movie_collection \<and>
   movie_files (dir_with [video_of ''a.mkv'', video_of ''b.mkv'', video_of ''x.S01E01.mkv'',
                          video_of ''x.S01E02.mkv''] []) = 2 \<and>
   episode_files (dir_with [video_of ''a.mkv'', video_of ''b.mkv'', video_of ''x.S01E01.mkv'',
                          video_of ''x.S01E02.mkv''] []) = 2 \<and>
   analyzeDirectoryType (dir_with [video_of ''a.mkv'', video_of ''b.mkv'', video_of ''x.S01E01.mkv'',
                          video_of ''x.S01E02.mkv''] []) = mixed_content \<and>
   movie_tally default_config ascii_lower [file_of ''a.mkv'', file_of ''x.S01E01.mkv''] = 1 \<and>
   tv_tally default_config ascii_lower [file_of ''a.mkv'', file_of ''x.S01E01.mkv''] = 1 \<and>
   da_primaryType (analyzeDirectory default_config ascii_lower
      [file_of ''a.mkv'', file_of ''x.S01E01.mkv'']) = pt_mixed"
proof -
  let ?p3 = "dir_with [video_of ''a.mkv'', video_of ''b.mkv'', video_of ''c.mkv''] []"
  let ?p22 = "dir_with [video_of ''a.mkv'', video_of ''b.mkv'', video_of ''x.S01E01.mkv'',
                          video_of ''x.S01E02.mkv''] []"
  let ?items = "[file_of ''a.mkv'', file_of ''x.S01E01.mkv'']"
  have a: "movie_files ?p3 = 3" "episode_files ?p3 = 0" by code_simp+
  have b: "movie_files ?p22 = 2" "episode_files ?p22 = 2" by code_simp+
  have c: "movie_tally default_config ascii_lower ?items = 1"
          "tv_tally default_config ascii_lower ?items = 1" by code_simp+
  note t3 = C6_directory_verdicts[of default_config ascii_lower ?items ?p3]
  note t22 = C6_directory_verdicts[of default_config ascii_lower ?items ?p22]
  note t3_5 = t3[THEN conjunct2, THEN conjunct2, THEN conjunct2, THEN conjunct2, THEN conjunct1]
  note t22_7 = t22[THEN conjunct2, THEN conjunct2, THEN conjunct2, THEN conjunct2,
                   THEN conjunct2, THEN conjunct2, THEN conjunct1]
  note t22_3 = t22[THEN conjunct2, THEN conjunct2, THEN conjunct1]
  from a have "movie_files ?p3 > 0 \<and> episode_files ?p3 = 0" by simp
  with t3_5 have 1: "analyzeDirectoryType ?p3 = movie_collection" by (rule mp)
  from b have "movie_files ?p22 > 0 \<and> episode_files ?p22 > 0" by simp
  with t22_7 have 2: "analyzeDirectoryType ?p22 = mixed_content" by (rule mp)
  from c have "movie_tally default_config ascii_lower ?items = tv_tally default_config ascii_lower ?items
      \<and> movie_tally default_config ascii_lower ?items > 0" by simp
  with t22_3
  have 3: "da_primaryType (analyzeDirectory default_config ascii_lower ?items) = pt_mixed"
    by (rule mp)
  from a b c 1 2 3 show ?thesis by (intro conjI)
qed

theorem C6_counterexample:
  "movie_files (dir_with [video_of ''a.mkv'', video_of ''b.mkv'', video_of ''c.mkv'',
                          video_of ''x.S01E01.mkv''] []) = 3 \<and>
   episode_files (dir_with [video_of ''a.mkv'', video_of ''b.mkv'', video_of ''c.mkv'',
                          video_of ''x.S01E01.mkv''] []) = 1 \<and>
   analyzeDirectoryType (dir_with [video_of ''a.mkv'', video_of ''b.mkv'', video_of ''c.mkv'',
                          video_of ''x.S01E01.mkv''] []) = mixed_content"
  by code_simp

section \<open>Maps in insertion order\<close>

lemma map_of_map_set: "map_of (map_set m k v) = (map_of m)(k \<mapsto> v)"
  by (induction m) (auto simp: fun_eq_iff)

lemma keys_map_set: "fst ` set (map_set m k v) = insert k (fst ` set m)"
proof (induction m)
  case Nil
  show ?case by simp
next
  case (Cons a m)
  obtain k' v' where a: "a = (k', v')" by (cases a)
  show ?case
  proof (cases "k' = k")
    case True
    with a show ?thesis by auto
  next
    case False
    with a Cons.IH show ?thesis by auto
  qed
qed

lemma distinct_map_set: "distinct (map fst m) \<Longrightarrow> distinct (map fst (map_set m k v))"
proof (induction m)
  case Nil
  then show ?case by simp
next
  case (Cons a m)
  obtain k' v' where a: "a = (k', v')" by (cases a)
  show ?case
  proof (cases "k' = k")
    case True
    with Cons.prems a show ?thesis by simp
  next
    case False
    from Cons have d: "distinct (map fst (map_set m k v))" by simp
    from Cons.prems a have "k' \<notin> fst ` set m" by simp
    with False have "k' \<notin> fst ` set (map_set m k v)" by (simp add: keys_map_set)
    with d a False show ?thesis by simp
  qed
qed

section \<open>Version groups\<close>























section \<open>The season-fragment merge\<close>

lemma fragments_snoc:
  "fragments k (xs @ [x]) =
     (if extractSeriesName x = k then fragments k xs @ ts_seasons x else fragments k xs)"
  by (simp add: fragments_def)

lemma fragments_absent: "k \<notin> extractSeriesName ` set xs \<Longrightarrow> fragments k xs = []"
proof -
  assume "k \<notin> extractSeriesName ` set xs"
  then have "\<forall>sh \<in> set xs. extractSeriesName sh \<noteq> k" by (metis imageI)
  then have "filter (\<lambda>sh. extractSeriesName sh = k) xs = []" by (simp add: filter_empty_conv)
  then show ?thesis by (simp add: fragments_def)
qed

lemma merge_step_shape:
  "\<exists>s. merge_step m x = map_set m (extractSeriesName x) s \<and>
       sr_title s = (case map_of m (extractSeriesName x) of
                       None \<Rightarrow> extractSeriesName x | Some e \<Rightarrow> sr_title e) \<and>
       sr_seasons s = (case map_of m (extractSeriesName x) of
                         None \<Rightarrow> [] | Some e \<Rightarrow> sr_seasons e) @ ts_seasons x"
proof (cases "map_of m (extractSeriesName x)")
  case None
  let ?s = "\<lparr>sr_title = extractSeriesName x, sr_seasons = ts_seasons x,
             sr_paths = (case ts_path x of None \<Rightarrow> [] | Some p \<Rightarrow> if p = [] then [] else [p]),
             sr_path = None\<rparr>"
  from None have "merge_step m x = map_set m (extractSeriesName x) ?s"
    by (simp add: merge_step_def Let_def)
  with None show ?thesis by (intro exI[of _ ?s]) simp
next
  case (Some a)
  let ?s = "a\<lparr>sr_seasons := sr_seasons a @ ts_seasons x,
               sr_paths := (case ts_path x of None \<Rightarrow> sr_paths a
                     | Some p \<Rightarrow> if p \<noteq> [] \<and> p \<notin> set (sr_paths a)
                         then sr_paths a @ [p] else sr_paths a)\<rparr>"
  from Some have "merge_step m x = map_set m (extractSeriesName x) ?s"
    by (simp add: merge_step_def Let_def)
  with Some show ?thesis by (intro exI[of _ ?s]) simp
qed

lemma merge_inv_step:
  assumes "merge_inv m xs"
  shows "merge_inv (merge_step m x) (xs @ [x])"
proof -
  let ?n = "extractSeriesName x"
  from assms have d: "distinct (map fst m)"
    and absent: "\<And>k. k \<notin> extractSeriesName ` set xs \<Longrightarrow> map_of m k = None"
    and present: "\<And>k. k \<in> extractSeriesName ` set xs \<Longrightarrow>
        \<exists>s. map_of m k = Some s \<and> sr_title s = k \<and> sr_seasons s = fragments k xs"
    unfolding merge_inv_def by blast+
  from merge_step_shape[of m x] obtain s where
    step: "merge_step m x = map_set m ?n s"
    and t: "sr_title s = (case map_of m ?n of None \<Rightarrow> ?n | Some e \<Rightarrow> sr_title e)"
    and f: "sr_seasons s = (case map_of m ?n of None \<Rightarrow> [] | Some e \<Rightarrow> sr_seasons e) @ ts_seasons x"
    by blast
  have s_ok: "sr_title s = ?n \<and> sr_seasons s = fragments ?n (xs @ [x])"
  proof (cases "?n \<in> extractSeriesName ` set xs")
    case True
    from present[OF True] obtain e where "map_of m ?n = Some e" "sr_title e = ?n"
      "sr_seasons e = fragments ?n xs" by blast
    with t f show ?thesis by (simp add: fragments_snoc)
  next
    case False
    from absent[OF False] fragments_absent[OF False] t f show ?thesis
      by (simp add: fragments_snoc)
  qed
  have 1: "distinct (map fst (merge_step m x))"
    unfolding step using d by (rule distinct_map_set)
  have 2: "map_of (merge_step m x) k = None" if "k \<notin> extractSeriesName ` set (xs @ [x])" for k
  proof -
    from that have "k \<noteq> ?n" "k \<notin> extractSeriesName ` set xs" by auto
    with absent[of k] show ?thesis by (simp add: step map_of_map_set)
  qed
  have 3: "\<exists>s'. map_of (merge_step m x) k = Some s' \<and> sr_title s' = k \<and>
            sr_seasons s' = fragments k (xs @ [x])"
    if "k \<in> extractSeriesName ` set (xs @ [x])" for k
  proof (cases "k = ?n")
    case True
    with s_ok show ?thesis by (simp add: step map_of_map_set)
  next
    case False
    with that have "k \<in> extractSeriesName ` set xs" by auto
    from present[OF this] False show ?thesis
      by (simp add: step map_of_map_set fragments_snoc)
  qed
  from 1 2 3 show ?thesis unfolding merge_inv_def by blast
qed

lemma merge_inv_foldl: "merge_inv (foldl merge_step [] xs) xs"
proof (induction xs rule: rev_induct)
  case Nil
  show ?case by (simp add: merge_inv_def)
next
  case (snoc x xs)
  then show ?case by (simp add: merge_inv_step)
qed

lemma finish_series_fields:
  "sr_title (finish_series s) = sr_title s"
  "sr_seasons (finish_series s) = sort_by_key season_key (sr_seasons s)"
proof -
  show "sr_title (finish_series s) = sr_title s"
    by (cases "sr_paths s") (simp_all add: finish_series_def Let_def)
  have "season_key = (\<lambda>a. num_or (sn_season a) 1)" by (simp add: fun_eq_iff season_key_def)
  then show "sr_seasons (finish_series s) = sort_by_key season_key (sr_seasons s)"
    by (cases "sr_paths s") (simp_all add: finish_series_def Let_def)
qed

lemma merged_series:
  assumes "s \<in> set (mergeTvSeasons tvShows)"
  shows "sr_seasons s = sort_by_key season_key (fragments (sr_title s) tvShows)"
proof -
  from assms have ne: "tvShows \<noteq> []" by (auto simp: mergeTvSeasons_def)
  with assms obtain k s0 where in_map: "(k, s0) \<in> set (foldl merge_step [] tvShows)"
    and s: "s = finish_series s0"
    by (auto simp: mergeTvSeasons_def)
  from merge_inv_foldl[of tvShows]
  have d: "distinct (map fst (foldl merge_step [] tvShows))"
    and absent: "k \<notin> extractSeriesName ` set tvShows \<Longrightarrow> map_of (foldl merge_step [] tvShows) k = None"
    and present: "k \<in> extractSeriesName ` set tvShows \<Longrightarrow>
        \<exists>s. map_of (foldl merge_step [] tvShows) k = Some s \<and> sr_title s = k \<and>
            sr_seasons s = fragments k tvShows"
    unfolding merge_inv_def by blast+
  from d in_map have mo: "map_of (foldl merge_step [] tvShows) k = Some s0" by simp
  with absent have "k \<in> extractSeriesName ` set tvShows" by fastforce
  from present[OF this] mo have "sr_title s0 = k" "sr_seasons s0 = fragments k tvShows" by simp_all
  with s show ?thesis by (simp add: finish_series_fields)
qed

text \<open>
  C1 (as amended). The seasons of every series that the merge produces are the season
  fragments of all shows with that series name, in discovery order and then sorted
  (stably) by season number, a missing or zero number counting as 1: the list is in
  ascending order and keeps every fragment, also fragments with the same season number.
\<close>

theorem C1_merged_seasons:
  assumes "s \<in> set (mergeTvSeasons tvShows)"
  shows "sr_seasons s = sort_by_key season_key (fragments (sr_title s) tvShows) \<and>
         sorted (map season_key (sr_seasons s)) \<and>
         length (sr_seasons s) = length (fragments (sr_title s) tvShows)"
proof -
  note m = merged_series[OF assms]
  have "sorted (map season_key (sort_by_key season_key (fragments (sr_title s) tvShows)))"
    by (simp add: sort_by_key_def)
  moreover have "length (sort_by_key season_key (fragments (sr_title s) tvShows)) =
      length (fragments (sr_title s) tvShows)"
    by (simp add: sort_by_key_def)
  ultimately show ?thesis unfolding m by (intro conjI) simp_all
qed

theorem C1_merged_seasons_witness:
  "hd (mergeTvSeasons [plain_show ''Show'' ''/a/Show'' [2, 3], plain_show ''Show'' ''/b/Show'' [1]])
     \<in> set (mergeTvSeasons
              [plain_show ''Show'' ''/a/Show'' [2, 3], plain_show ''Show'' ''/b/Show'' [1]]) \<and>
   map sn_season (sr_seasons (hd (mergeTvSeasons
      [plain_show ''Show'' ''/a/Show'' [2, 3], plain_show ''Show'' ''/b/Show'' [1]])))
     = [Some (Num 1), Some (Num 2), Some (Num 3)] \<and>
   sorted (map season_key (sr_seasons (hd (mergeTvSeasons
      [plain_show ''Show'' ''/a/Show'' [2, 3], plain_show ''Show'' ''/b/Show'' [1]]))))"
proof -
  let ?shows = "[plain_show ''Show'' ''/a/Show'' [2, 3], plain_show ''Show'' ''/b/Show'' [1]]"
  have h: "hd (mergeTvSeasons ?shows) \<in> set (mergeTvSeasons ?shows)" by code_simp
  have e: "map sn_season (sr_seasons (hd (mergeTvSeasons ?shows)))
     = [Some (Num 1), Some (Num 2), Some (Num 3)]" by code_simp
  from C1_merged_seasons[OF h]
  have s: "sorted (map season_key (sr_seasons (hd (mergeTvSeasons ?shows))))"
    by (rule conjunct1[OF conjunct2])
  from h e s show ?thesis by (intro conjI)
qed

theorem C1_counterexample:
  "map sr_title (mergeTvSeasons [demo_show ''/x/Show'', demo_show ''/y/Show'']) = [js ''Show''] \<and>
   map (map sn_season)
     (map sr_seasons (mergeTvSeasons [demo_show ''/x/Show'', demo_show ''/y/Show'']))
     = [[Some (Num 1), Some (Num 1)]] \<and>
   map episode_number
     (fst (getSeasonEpisodes default_config ascii_lower (js ''http://h'') demo_listing
             (js ''/x/Show/S01'') ()))
     = [Some (Num 2), Some (Num 1)]"
  by code_simp

section \<open>The movie/TV split\<close>

lemma all_values_map_set:
  "all_values P m \<Longrightarrow> P v \<Longrightarrow> all_values P (map_set m k v)"
  by (induction m) (auto simp: all_values_def)

lemma all_values_mono:
  "all_values P m \<Longrightarrow> (\<And>v. P v \<Longrightarrow> Q v) \<Longrightarrow> all_values Q m"
  by (auto simp: all_values_def list_all_iff)

lemma movie_step_built:
  assumes "all_values movie_built m"
  shows "all_values movie_built (movie_step toString base m x)"
proof -
  obtain movie outcome stamp where x: "x = (movie, outcome, stamp)" by (cases x)
  show ?thesis
  proof (cases outcome)
    case Threw
    with x assms show ?thesis by (simp add: movie_step_def)
  next
    case NotFound
    with x show ?thesis
      by (simp add: movie_step_def Let_def all_values_map_set[OF assms] movie_built_def)
  next
    case (Found tmdbInfo)
    show ?thesis
    proof (cases "map_of m (toString (t_id tmdbInfo))")
      case None
      with x Found show ?thesis
        by (simp add: movie_step_def Let_def all_values_map_set[OF assms] movie_built_def)
    next
      case (Some existingMovie)
      note ex = this
      then have "(toString (t_id tmdbInfo), existingMovie) \<in> set m" by (rule map_of_SomeD)
      with assms have b: "movie_built existingMovie"
        by (auto simp: all_values_def list_all_iff)
      show ?thesis
      proof (cases "c_files existingMovie")
        case None
        with x Found ex assms show ?thesis by (simp add: movie_step_def Let_def)
      next
        case (Some fs)
        from b have "movie_built (existingMovie\<lparr>c_files := Some (fs @ mc_files movie),
                        c_file_count := Some (length (fs @ mc_files movie))\<rparr>)"
          by (simp add: movie_built_def)
        from all_values_map_set[OF assms this] x Found ex Some show ?thesis
          by (simp add: movie_step_def Let_def)
      qed
    qed
  qed
qed

lemma tv_step_built:
  assumes "all_values Q m" "\<And>c. tv_built c \<Longrightarrow> Q c"
  shows "all_values Q (tv_step toString base m x)"
proof -
  obtain tvShow outcome stamp where x: "x = (tvShow, outcome, stamp)" by (cases x)
  have new: "all_values Q (map_set m k r)" if "tv_built r" for k r
    using assms(1) assms(2)[OF that] by (rule all_values_map_set)
  show ?thesis
  proof (cases outcome)
    case Threw
    with x assms show ?thesis by (simp add: tv_step_def)
  next
    case NotFound
    show ?thesis
    proof (cases "count_episodes (sr_seasons tvShow)")
      case None
      with x NotFound assms show ?thesis by (simp add: tv_step_def Let_def)
    next
      case (Some n)
      with x NotFound show ?thesis
        by (simp add: tv_step_def Let_def) (rule new, simp add: tv_built_def)
    qed
  next
    case (Found tmdbInfo)
    show ?thesis
    proof (cases "enrich_seasons base (sr_seasons tvShow)")
      case None
      with x Found assms show ?thesis by (simp add: tv_step_def Let_def)
    next
      case (Some seasons)
      with x Found show ?thesis
        by (simp add: tv_step_def Let_def) (rule new, simp add: tv_built_def)
    qed
  qed
qed

lemma foldl_movie_step_built:
  "all_values movie_built m \<Longrightarrow> all_values movie_built (foldl (movie_step toString base) m xs)"
  by (induction xs arbitrary: m) (simp_all add: movie_step_built)

lemma foldl_tv_step_built:
  "all_values Q m \<Longrightarrow> (\<And>c. tv_built c \<Longrightarrow> Q c) \<Longrightarrow>
   all_values Q (foldl (tv_step toString base) m xs)"
  by (induction xs arbitrary: m) (simp_all add: tv_step_built)

lemma allContent_movies_built:
  "c \<in> set (allContent toString base ms []) \<Longrightarrow> movie_built c"
proof -
  have "all_values movie_built (foldl (movie_step toString base) [] ms)"
    by (rule foldl_movie_step_built) (simp add: all_values_def)
  moreover assume "c \<in> set (allContent toString base ms [])"
  ultimately show ?thesis by (auto simp: allContent_def all_values_def list_all_iff)
qed

lemma allContent_origin:
  assumes "c \<in> set (allContent toString base ms ts)"
  shows "c \<in> set (allContent toString base ms []) \<or> tv_built c"
proof -
  let ?M = "foldl (movie_step toString base) [] ms"
  have "all_values (\<lambda>c. c \<in> snd ` set ?M \<or> tv_built c) ?M"
    by (auto simp: all_values_def list_all_iff)
  then have "all_values (\<lambda>c. c \<in> snd ` set ?M \<or> tv_built c) (foldl (tv_step toString base) ?M ts)"
    by (rule foldl_tv_step_built) simp
  with assms show ?thesis by (auto simp: allContent_def all_values_def list_all_iff)
qed

lemma allContent_files:
  "c \<in> set (allContent toString base ms ts) \<Longrightarrow> c_files c \<noteq> None"
  using allContent_origin[of c toString base ms ts] allContent_movies_built[of c toString base ms]
  by (auto simp: movie_built_def tv_built_def)

lemma correct_movie_fields:
  "c_files (correct_movie toString c) = c_files c"
  "c_seasons (correct_movie toString c) = None"
  "c_episode_count (correct_movie toString c) = None"
  "c_number_of_seasons (correct_movie toString c) = None"
  "c_number_of_episodes (correct_movie toString c) = None"
  by (simp_all add: correct_movie_def Let_def)

lemma correct_tv_fields:
  "c_files (correct_tv toString c) = c_files c"
  "c_directory_type (correct_tv toString c) = c_directory_type c"
  "c_media_type (correct_tv toString c) = c_media_type c"
  "c_seasons (correct_tv toString c) \<noteq> None"
  "c_episode_count (correct_tv toString c) \<noteq> None"
proof -
  show "c_files (correct_tv toString c) = c_files c"
    by (simp add: correct_tv_def Let_def split: option.splits nat.splits)
  show "c_directory_type (correct_tv toString c) = c_directory_type c"
    by (simp add: correct_tv_def Let_def split: option.splits nat.splits)
  show "c_media_type (correct_tv toString c) = c_media_type c"
    by (simp add: correct_tv_def Let_def split: option.splits nat.splits)
  show "c_seasons (correct_tv toString c) \<noteq> None"
    by (simp add: correct_tv_def Let_def split: option.splits nat.splits)
  show "c_episode_count (correct_tv toString c) \<noteq> None"
    by (simp add: correct_tv_def Let_def split: option.splits nat.splits)
qed

lemma movie_not_tv: "js ''movie'' \<noteq> js ''tv''"
  by (simp add: js_def)

lemma tv_record_shape:
  assumes "t \<in> set (finalCorrectedTvShows toString (allContent toString base ms ts))"
  shows "c_directory_type t = Some (js ''tv'') \<and> c_files t = Some [] \<or>
         c_directory_type t = Some (js ''movie'') \<and> c_media_type t = Some (js ''tv'') \<and>
         (\<exists>c \<in> set (allContent toString base ms []).
            t = correct_tv toString c \<and> c_files t = c_files c \<and>
            correct_movie toString c
              \<in> set (finalCorrectedMovies toString (allContent toString base ms ts)))"
proof -
  from assms obtain c where c: "c \<in> set (allContent toString base ms ts)"
    and f: "c_media_type c = Some (js ''tv'') \<or> c_directory_type c = Some (js ''tv'')"
    and t: "t = correct_tv toString c"
    by (auto simp: finalCorrectedTvShows_def finalTvShows_def)
  from allContent_origin[OF c] show ?thesis
  proof
    assume "tv_built c"
    with t show ?thesis by (simp add: tv_built_def correct_tv_fields)
  next
    assume o: "c \<in> set (allContent toString base ms [])"
    then have "movie_built c" by (rule allContent_movies_built)
    then have d: "c_directory_type c = Some (js ''movie'')" by (simp add: movie_built_def)
    with f movie_not_tv have m: "c_media_type c = Some (js ''tv'')" by auto
    from c d have "c \<in> set (finalMovies (allContent toString base ms ts))"
      by (simp add: finalMovies_def)
    then have "correct_movie toString c
        \<in> set (finalCorrectedMovies toString (allContent toString base ms ts))"
      by (simp add: finalCorrectedMovies_def)
    with o t d m show ?thesis by (auto simp: correct_tv_fields)
  qed
qed

lemma split_total:
  assumes "c \<in> set (allContent toString base ms ts)"
  shows "c_directory_type c = Some (js ''movie'') \<and>
           correct_movie toString c
             \<in> set (finalCorrectedMovies toString (allContent toString base ms ts)) \<or>
         c_directory_type c = Some (js ''tv'') \<and>
           correct_tv toString c
             \<in> set (finalCorrectedTvShows toString (allContent toString base ms ts))"
proof -
  from allContent_origin[OF assms] show ?thesis
  proof
    assume "c \<in> set (allContent toString base ms [])"
    then have "movie_built c" by (rule allContent_movies_built)
    then have d: "c_directory_type c = Some (js ''movie'')" by (simp add: movie_built_def)
    with assms have "c \<in> set (finalMovies (allContent toString base ms ts))"
      by (simp add: finalMovies_def)
    with d show ?thesis by (simp add: finalCorrectedMovies_def)
  next
    assume "tv_built c"
    then have d: "c_directory_type c = Some (js ''tv'')" by (simp add: tv_built_def)
    with assms have "c \<in> set (finalTvShows (allContent toString base ms ts))"
      by (simp add: finalTvShows_def)
    with d show ?thesis by (simp add: finalCorrectedTvShows_def)
  qed
qed

text \<open>
  C8 (as amended). Every record that the two loops leave in the map has the directory
  type \<open>movie\<close> and is listed in finalCorrectedMovies, or has the directory type \<open>tv\<close> and
  is listed in finalCorrectedTvShows. Every record of finalCorrectedMovies has a files
  field and none of the fields seasons, episode_count, number_of_seasons and
  number_of_episodes. Every record of finalCorrectedTvShows has a seasons field, an episode_count field and a files field.
  A record of finalCorrectedTvShows that was built from a TV candidate (directory type
  \<open>tv\<close>) has the empty list as its files. Every other record of finalCorrectedTvShows
  comes from a record that the loop over the movie candidates built and whose lookup
  gave the media type \<open>tv\<close>: it has the directory type \<open>movie\<close>, keeps the files of that
  record, and the same record is listed in finalCorrectedMovies as well.
\<close>

theorem C8_split_shapes:
  "(\<forall>c \<in> set (allContent toString base ms ts).
      c_directory_type c = Some (js ''movie'') \<and>
        correct_movie toString c
          \<in> set (finalCorrectedMovies toString (allContent toString base ms ts)) \<or>
      c_directory_type c = Some (js ''tv'') \<and>
        correct_tv toString c
          \<in> set (finalCorrectedTvShows toString (allContent toString base ms ts))) \<and>
   (\<forall>m \<in> set (finalCorrectedMovies toString (allContent toString base ms ts)).
      c_files m \<noteq> None \<and> c_seasons m = None \<and> c_episode_count m = None \<and>
      c_number_of_seasons m = None \<and> c_number_of_episodes m = None) \<and>
   (\<forall>t \<in> set (finalCorrectedTvShows toString (allContent toString base ms ts)).
      c_seasons t \<noteq> None \<and> c_episode_count t \<noteq> None \<and> c_files t \<noteq> None \<and>
      (c_directory_type t = Some (js ''tv'') \<and> c_files t = Some [] \<or>
       c_directory_type t = Some (js ''movie'') \<and> c_media_type t = Some (js ''tv'') \<and>
       (\<exists>c \<in> set (allContent toString base ms []).
          t = correct_tv toString c \<and> c_files t = c_files c \<and>
          correct_movie toString c
            \<in> set (finalCorrectedMovies toString (allContent toString base ms ts)))))"
proof (intro conjI ballI)
  fix c assume "c \<in> set (allContent toString base ms ts)"
  then show "c_directory_type c = Some (js ''movie'') \<and>
        correct_movie toString c
          \<in> set (finalCorrectedMovies toString (allContent toString base ms ts)) \<or>
      c_directory_type c = Some (js ''tv'') \<and>
        correct_tv toString c
          \<in> set (finalCorrectedTvShows toString (allContent toString base ms ts))"
    by (rule split_total)
next
  fix m assume "m \<in> set (finalCorrectedMovies toString (allContent toString base ms ts))"
  then obtain c where c: "c \<in> set (allContent toString base ms ts)"
    and m: "m = correct_movie toString c"
    by (auto simp: finalCorrectedMovies_def finalMovies_def)
  from allContent_files[OF c] m show "c_files m \<noteq> None" by (simp add: correct_movie_fields)
  from m show "c_seasons m = None" by (simp add: correct_movie_fields)
  from m show "c_episode_count m = None" by (simp add: correct_movie_fields)
  from m show "c_number_of_seasons m = None" by (simp add: correct_movie_fields)
  from m show "c_number_of_episodes m = None" by (simp add: correct_movie_fields)
next
  fix t assume a: "t \<in> set (finalCorrectedTvShows toString (allContent toString base ms ts))"
  then obtain c where c: "c \<in> set (allContent toString base ms ts)"
    and t: "t = correct_tv toString c"
    by (auto simp: finalCorrectedTvShows_def finalTvShows_def)
  from t show "c_seasons t \<noteq> None" by (simp add: correct_tv_fields)
  from t show "c_episode_count t \<noteq> None" by (simp add: correct_tv_fields)
  from allContent_files[OF c] t show "c_files t \<noteq> None" by (simp add: correct_tv_fields)
  from a show "c_directory_type t = Some (js ''tv'') \<and> c_files t = Some [] \<or>
       c_directory_type t = Some (js ''movie'') \<and> c_media_type t = Some (js ''tv'') \<and>
       (\<exists>c \<in> set (allContent toString base ms []).
          t = correct_tv toString c \<and> c_files t = c_files c \<and>
          correct_movie toString c
            \<in> set (finalCorrectedMovies toString (allContent toString base ms ts)))"
    by (rule tv_record_shape)
qed

theorem C8_split_shapes_witness:
  "last (allContent decimal (js ''http://h'')
         [(dune_cand, Found (tmdb_rec 7 ''Dune'' ''tv''), js ''1_a'')]
         [(show_series, Found (tmdb_rec 9 ''Show'' ''tv''), js ''2_b'')])
     \<in> set (allContent decimal (js ''http://h'')
         [(dune_cand, Found (tmdb_rec 7 ''Dune'' ''tv''), js ''1_a'')]
         [(show_series, Found (tmdb_rec 9 ''Show'' ''tv''), js ''2_b'')]) \<and>
   correct_tv decimal (last (allContent decimal (js ''http://h'')
         [(dune_cand, Found (tmdb_rec 7 ''Dune'' ''tv''), js ''1_a'')]
         [(show_series, Found (tmdb_rec 9 ''Show'' ''tv''), js ''2_b'')]))
     \<in> set (finalCorrectedTvShows decimal (allContent decimal (js ''http://h'')
         [(dune_cand, Found (tmdb_rec 7 ''Dune'' ''tv''), js ''1_a'')]
         [(show_series, Found (tmdb_rec 9 ''Show'' ''tv''), js ''2_b'')])) \<and>
   hd (finalCorrectedMovies decimal (allContent decimal (js ''http://h'')
         [(dune_cand, Found (tmdb_rec 7 ''Dune'' ''tv''), js ''1_a'')]
         [(show_series, Found (tmdb_rec 9 ''Show'' ''tv''), js ''2_b'')]))
     \<in> set (finalCorrectedMovies decimal (allContent decimal (js ''http://h'')
         [(dune_cand, Found (tmdb_rec 7 ''Dune'' ''tv''), js ''1_a'')]
         [(show_series, Found (tmdb_rec 9 ''Show'' ''tv''), js ''2_b'')])) \<and>
   last (finalCorrectedTvShows decimal (allContent decimal (js ''http://h'')
         [(dune_cand, Found (tmdb_rec 7 ''Dune'' ''tv''), js ''1_a'')]
         [(show_series, Found (tmdb_rec 9 ''Show'' ''tv''), js ''2_b'')]))
     \<in> set (finalCorrectedTvShows decimal (allContent decimal (js ''http://h'')
         [(dune_cand, Found (tmdb_rec 7 ''Dune'' ''tv''), js ''1_a'')]
         [(show_series, Found (tmdb_rec 9 ''Show'' ''tv''), js ''2_b'')])) \<and>
   c_seasons (hd (finalCorrectedMovies decimal (allContent decimal (js ''http://h'')
         [(dune_cand, Found (tmdb_rec 7 ''Dune'' ''tv''), js ''1_a'')]
         [(show_series, Found (tmdb_rec 9 ''Show'' ''tv''), js ''2_b'')]))) = None \<and>
   c_episode_count (last (finalCorrectedTvShows decimal (allContent decimal (js ''http://h'')
         [(dune_cand, Found (tmdb_rec 7 ''Dune'' ''tv''), js ''1_a'')]
         [(show_series, Found (tmdb_rec 9 ''Show'' ''tv''), js ''2_b'')]))) \<noteq> None \<and>
   c_directory_type (last (finalCorrectedTvShows decimal (allContent decimal (js ''http://h'')
         [(dune_cand, Found (tmdb_rec 7 ''Dune'' ''tv''), js ''1_a'')]
         [(show_series, Found (tmdb_rec 9 ''Show'' ''tv''), js ''2_b'')]))) = Some (js ''tv'') \<and>
   c_files (last (finalCorrectedTvShows decimal (allContent decimal (js ''http://h'')
         [(dune_cand, Found (tmdb_rec 7 ''Dune'' ''tv''), js ''1_a'')]
         [(show_series, Found (tmdb_rec 9 ''Show'' ''tv''), js ''2_b'')]))) = Some []"
proof -
  let ?cs = "allContent decimal (js ''http://h'')
         [(dune_cand, Found (tmdb_rec 7 ''Dune'' ''tv''), js ''1_a'')]
         [(show_series, Found (tmdb_rec 9 ''Show'' ''tv''), js ''2_b'')]"
  have m: "hd (finalCorrectedMovies decimal ?cs) \<in> set (finalCorrectedMovies decimal ?cs)"
    by code_simp
  have t: "last (finalCorrectedTvShows decimal ?cs) \<in> set (finalCorrectedTvShows decimal ?cs)"
    by code_simp
  have d: "c_directory_type (last (finalCorrectedTvShows decimal ?cs)) = Some (js ''tv'')"
    by code_simp
  note inst = C8_split_shapes[of decimal "js ''http://h''"
         "[(dune_cand, Found (tmdb_rec 7 ''Dune'' ''tv''), js ''1_a'')]"
         "[(show_series, Found (tmdb_rec 9 ''Show'' ''tv''), js ''2_b'')]"]
  have c: "last ?cs \<in> set ?cs" by code_simp
  have cd: "c_directory_type (last ?cs) = Some (js ''tv'')" by code_simp
  from inst[THEN conjunct1] c
  have "c_directory_type (last ?cs) = Some (js ''movie'') \<or>
        correct_tv decimal (last ?cs) \<in> set (finalCorrectedTvShows decimal ?cs)"
    by blast
  with cd movie_not_tv
  have 0: "correct_tv decimal (last ?cs) \<in> set (finalCorrectedTvShows decimal ?cs)"
    by auto
  from inst[THEN conjunct2, THEN conjunct1] m
  have 1: "c_seasons (hd (finalCorrectedMovies decimal ?cs)) = None"
    by blast
  from inst[THEN conjunct2, THEN conjunct2] t
  have 2: "c_episode_count (last (finalCorrectedTvShows decimal ?cs)) \<noteq> None"
    by blast
  from inst[THEN conjunct2, THEN conjunct2] t
  have "c_directory_type (last (finalCorrectedTvShows decimal ?cs)) = Some (js ''tv'') \<and>
        c_files (last (finalCorrectedTvShows decimal ?cs)) = Some [] \<or>
        c_directory_type (last (finalCorrectedTvShows decimal ?cs)) = Some (js ''movie'')"
    by blast
  with d movie_not_tv have 3: "c_files (last (finalCorrectedTvShows decimal ?cs)) = Some []"
    by auto
  from c 0 m t 1 2 d 3 show ?thesis by (intro conjI)
qed

theorem C8_counterexample:
  "map c_files (finalCorrectedTvShows decimal (allContent decimal (js ''http://h'') []
         [(show_series, Found (tmdb_rec 9 ''Show'' ''tv''), js ''2_b'')])) = [Some []] \<and>
   map c_id (finalCorrectedTvShows decimal (allContent decimal (js ''http://h'')
         [(dune_cand, Found (tmdb_rec 7 ''Dune'' ''tv''), js ''1_a'')] [])) = [js ''tv_7''] \<and>
   map (map_option length) (map c_files (finalCorrectedTvShows decimal (allContent decimal (js ''http://h'')
         [(dune_cand, Found (tmdb_rec 7 ''Dune'' ''tv''), js ''1_a'')] []))) = [Some 1]"
  by code_simp

section \<open>The walk and failed listings\<close>

declare analyzeRecursive.simps [simp del]
declare analyze_items.simps [simp del]

lemma analyze_items_Nil: "analyze_items cfg lower api p depth [] s = s"
  by (simp add: analyze_items.simps)

lemma analyze_items_ignored:
  "is_dir it \<Longrightarrow> shouldIgnoreDirectory cfg lower (name it) \<Longrightarrow>
   analyze_items cfg lower api p depth (it # items) (pathInfo, a, st) =
   analyze_items cfg lower api p depth items (pathInfo, a, st)"
  by (subst analyze_items.simps) (simp add: Let_def)

lemma analyze_items_dir:
  "is_dir it \<Longrightarrow> \<not> shouldIgnoreDirectory cfg lower (name it) \<Longrightarrow>
   analyzeRecursive cfg lower api (child_path p (name it)) (depth + 1) (a, st) = (a', st') \<Longrightarrow>
   analyze_items cfg lower api p depth (it # items) (pathInfo, a, st) =
   analyze_items cfg lower api p depth items
     (pathInfo\<lparr>pi_subdirectories := pi_subdirectories pathInfo @
        [\<lparr>sd_name = name it, sd_path = child_path p (name it),
          sd_type = classifyDirectory cfg (name it)\<rparr>]\<rparr>, a', st')"
  by (subst analyze_items.simps) (simp add: Let_def)

lemma analyze_items_video:
  "\<not> is_dir it \<Longrightarrow> pa_isVideoFile lower (name it) \<Longrightarrow>
   analyze_items cfg lower api p depth (it # items) (pathInfo, a, st) =
   analyze_items cfg lower api p depth items
     (pathInfo\<lparr>pi_items := pi_items pathInfo @ [it],
               pi_videoFiles := pi_videoFiles pathInfo @
                 [\<lparr>vf_item = it, vf_path = child_path p (name it),
                   vf_metadata = analyzeFileName (name it)\<rparr>]\<rparr>,
      a\<lparr>totalFiles := totalFiles a + 1\<rparr>, st)"
  by (subst analyze_items.simps) (simp add: Let_def)

lemma analyze_items_other:
  "\<not> is_dir it \<Longrightarrow> \<not> pa_isVideoFile lower (name it) \<Longrightarrow>
   analyze_items cfg lower api p depth (it # items) (pathInfo, a, st) =
   analyze_items cfg lower api p depth items
     (pathInfo\<lparr>pi_items := pi_items pathInfo @ [it]\<rparr>, a, st)"
  by (subst analyze_items.simps) (simp add: Let_def)

lemma caught_Inl: "api p st = (Inl err, st') \<Longrightarrow> caught api p st = (Inr (Some []), st')"
  by (simp add: caught_def)

lemma caught_Inr: "api p st = (Inr r, st') \<Longrightarrow> caught api p st = (Inr r, st')"
  by (simp add: caught_def)

lemma analyzeRecursive_too_deep:
  "depth > maxDepth cfg \<Longrightarrow> analyzeRecursive cfg lower api p depth (a, st) = (a, st)"
  by (subst analyzeRecursive.simps) simp

lemma analyzeRecursive_failed:
  "\<not> depth > maxDepth cfg \<Longrightarrow> api p st = (Inl err, st') \<Longrightarrow>
   analyzeRecursive cfg lower api p depth (a, st) = (a, st')"
  by (subst analyzeRecursive.simps) simp

lemma analyzeRecursive_null:
  "\<not> depth > maxDepth cfg \<Longrightarrow> api p st = (Inr None, st') \<Longrightarrow>
   analyzeRecursive cfg lower api p depth (a, st) = (a, st')"
  by (subst analyzeRecursive.simps) simp

lemma analyzeRecursive_empty:
  "\<not> depth > maxDepth cfg \<Longrightarrow> api p st = (Inr (Some []), st') \<Longrightarrow>
   analyzeRecursive cfg lower api p depth (a, st) = (a, st')"
  by (subst analyzeRecursive.simps) simp

lemma analyzeRecursive_listed:
  "\<not> depth > maxDepth cfg \<Longrightarrow> api p st = (Inr (Some items), st') \<Longrightarrow> items \<noteq> [] \<Longrightarrow>
   analyze_items cfg lower api p depth items
     (\<lparr>pi_path = p, pi_depth = depth, pi_type = unknown_dir, pi_items = [],
       pi_videoFiles = [], pi_subdirectories = []\<rparr>,
      a\<lparr>totalDirectories := totalDirectories a + 1,
        stat_maxDepth := max (stat_maxDepth a) depth\<rparr>, st') = (pathInfo, a', st'') \<Longrightarrow>
   analyzeRecursive cfg lower api p depth (a, st) =
     (let r = pathInfo\<lparr>pi_type := analyzeDirectoryType pathInfo\<rparr>;
          b = categorizeDirectory r a'
      in (b\<lparr>pathMap := map_set (pathMap b) p r\<rparr>, st''))"
  by (subst analyzeRecursive.simps) (simp add: Let_def)

lemma walk_caught:
  "analyzeRecursive cfg lower api p depth s = analyzeRecursive cfg lower (caught api) p depth s"
  "analyze_items cfg lower api p depth items t = analyze_items cfg lower (caught api) p depth items t"
proof (induction cfg lower api p depth s and cfg lower api p depth items t
       rule: analyzeRecursive_analyze_items.induct)
  case (1 cfg lower api currentPath depth a st)
  show ?case
  proof (cases "depth > maxDepth cfg")
    case True
    then show ?thesis by (simp add: analyzeRecursive_too_deep)
  next
    case False
    obtain r st' where r: "api currentPath st = (r, st')" by (cases "api currentPath st")
    show ?thesis
    proof (cases r)
      case (Inl err)
      with r have r': "api currentPath st = (Inl err, st')" by simp
      show ?thesis
        by (simp add: analyzeRecursive_failed[where api=api and p=currentPath and st=st, OF False r']
            analyzeRecursive_empty[where api="caught api" and p=currentPath and st=st, OF False caught_Inl[where api=api and p=currentPath and st=st, OF r']])
    next
      case (Inr content)
      with r have r': "api currentPath st = (Inr content, st')" by simp
      note c = caught_Inr[where api=api and p=currentPath and st=st, OF r']
      show ?thesis
      proof (cases content)
        case None
        show ?thesis
          using analyzeRecursive_null[where api=api and p=currentPath and st=st, OF False r'[unfolded None]]
            analyzeRecursive_null[where api="caught api" and p=currentPath and st=st, OF False c[unfolded None]] by simp
      next
        case (Some items)
        show ?thesis
        proof (cases "items = []")
          case True
          show ?thesis
            using analyzeRecursive_empty[where api=api and p=currentPath and st=st, OF False r'[unfolded Some True]]
              analyzeRecursive_empty[where api="caught api" and p=currentPath and st=st, OF False c[unfolded Some True]] by simp
        next
          case ne: False
          let ?pi = "\<lparr>pi_path = currentPath, pi_depth = depth, pi_type = unknown_dir,
               pi_items = [], pi_videoFiles = [], pi_subdirectories = []\<rparr>"
          let ?a = "a\<lparr>totalDirectories := totalDirectories a + 1,
                      stat_maxDepth := max (stat_maxDepth a) depth\<rparr>"
          have IH: "analyze_items cfg lower api currentPath depth items (?pi, ?a, st') =
                    analyze_items cfg lower (caught api) currentPath depth items (?pi, ?a, st')"
            using "1.IH"[OF False r'[unfolded Some, symmetric] refl refl ne refl refl] .
          obtain pathInfo a' st'' where
            res: "analyze_items cfg lower api currentPath depth items (?pi, ?a, st') = (pathInfo, a', st'')"
            by (cases "analyze_items cfg lower api currentPath depth items (?pi, ?a, st')")
          from res IH have res': "analyze_items cfg lower (caught api) currentPath depth items (?pi, ?a, st') =
              (pathInfo, a', st'')" by simp
          show ?thesis
            using analyzeRecursive_listed[where api=api and p=currentPath and st=st, OF False r'[unfolded Some] ne res]
              analyzeRecursive_listed[where api="caught api" and p=currentPath and st=st, OF False c[unfolded Some] ne res'] by simp
        qed
      qed
    qed
  qed
next
  case (2 cfg lower api currentPath depth s)
  show ?case by (simp add: analyze_items_Nil)
next
  case (3 cfg lower api currentPath depth it items pathInfo a st)
  show ?case
  proof (cases "is_dir it")
    case True
    show ?thesis
    proof (cases "shouldIgnoreDirectory cfg lower (name it)")
      case ign: True
      from "3.IH"(1)[OF refl True ign] show ?thesis
        by (simp add: analyze_items_ignored[OF True ign])
    next
      case nign: False
      let ?x = "child_path currentPath (name it)"
      have P: "analyzeRecursive cfg lower api ?x (depth + 1) (a, st) =
               analyzeRecursive cfg lower (caught api) ?x (depth + 1) (a, st)"
        using "3.IH"(2)[OF refl True nign refl] .
      obtain xb y where res: "analyzeRecursive cfg lower api ?x (depth + 1) (a, st) = (xb, y)"
        by (cases "analyzeRecursive cfg lower api ?x (depth + 1) (a, st)")
      from res P have res': "analyzeRecursive cfg lower (caught api) ?x (depth + 1) (a, st) = (xb, y)"
        by simp
      note Q = "3.IH"(3)[OF refl True nign refl res[symmetric]]
      show ?thesis
        using Q by (simp add: analyze_items_dir[OF True nign res] analyze_items_dir[OF True nign res'])
    qed
  next
    case False
    show ?thesis
    proof (cases "pa_isVideoFile lower (name it)")
      case v: True
      from "3.IH"(4)[OF refl False refl v] show ?thesis
        by (simp add: analyze_items_video[OF False v])
    next
      case nv: False
      from "3.IH"(5)[OF refl False refl nv] show ?thesis
        by (simp add: analyze_items_other[OF False nv])
    qed
  qed
qed

lemma analyze_items_record:
  "\<exists>a' st'. analyze_items cfg lower api p depth items (pathInfo, a, st) =
     (pathInfo\<lparr>pi_items := pi_items pathInfo @ filter (\<lambda>it. \<not> is_dir it) items,
               pi_videoFiles := pi_videoFiles pathInfo @ videos_of lower p items,
               pi_subdirectories := pi_subdirectories pathInfo @ subdirs_of cfg lower p items\<rparr>,
      a', st')"
proof (induction items arbitrary: pathInfo a st)
  case Nil
  show ?case by (simp add: analyze_items_Nil videos_of_def subdirs_of_def)
next
  case (Cons it items)
  show ?case
  proof (cases "is_dir it")
    case True
    show ?thesis
    proof (cases "shouldIgnoreDirectory cfg lower (name it)")
      case ign: True
      from Cons.IH[of pathInfo a st] show ?thesis
        by (simp add: analyze_items_ignored[OF True ign] videos_of_def subdirs_of_def True ign)
    next
      case nign: False
      obtain xb y where res: "analyzeRecursive cfg lower api (child_path p (name it)) (depth + 1) (a, st)
          = (xb, y)"
        by (cases "analyzeRecursive cfg lower api (child_path p (name it)) (depth + 1) (a, st)")
      let ?pi = "pathInfo\<lparr>pi_subdirectories := pi_subdirectories pathInfo @
        [\<lparr>sd_name = name it, sd_path = child_path p (name it),
          sd_type = classifyDirectory cfg (name it)\<rparr>]\<rparr>"
      from Cons.IH[of ?pi xb y] show ?thesis
        by (simp add: analyze_items_dir[OF True nign res] videos_of_def subdirs_of_def True nign)
    qed
  next
    case False
    show ?thesis
    proof (cases "pa_isVideoFile lower (name it)")
      case v: True
      let ?pi = "pathInfo\<lparr>pi_items := pi_items pathInfo @ [it],
               pi_videoFiles := pi_videoFiles pathInfo @
                 [\<lparr>vf_item = it, vf_path = child_path p (name it),
                   vf_metadata = analyzeFileName (name it)\<rparr>]\<rparr>"
      from Cons.IH[of ?pi "a\<lparr>totalFiles := totalFiles a + 1\<rparr>" st] show ?thesis
        by (simp add: analyze_items_video[OF False v] videos_of_def subdirs_of_def False v)
    next
      case nv: False
      let ?pi = "pathInfo\<lparr>pi_items := pi_items pathInfo @ [it]\<rparr>"
      from Cons.IH[of ?pi a st] show ?thesis
        by (simp add: analyze_items_other[OF False nv] videos_of_def subdirs_of_def False nv)
    qed
  qed
qed

lemma pathMap_categorize: "pathMap (categorizeDirectory r a) = pathMap a"
  by (cases "pi_type r") (simp_all add: categorizeDirectory_def)

lemma parent_record:
  assumes "\<not> depth > maxDepth cfg" "api p st = (Inr (Some items), st')" "items \<noteq> []"
  shows "map_of (pathMap (fst (analyzeRecursive cfg lower api p depth (a, st)))) p =
           Some (record_of cfg lower p depth items)"
proof -
  let ?pi = "\<lparr>pi_path = p, pi_depth = depth, pi_type = unknown_dir, pi_items = [],
       pi_videoFiles = [], pi_subdirectories = []\<rparr>"
  let ?a = "a\<lparr>totalDirectories := totalDirectories a + 1,
        stat_maxDepth := max (stat_maxDepth a) depth\<rparr>"
  from analyze_items_record[of cfg lower api p depth items ?pi ?a st']
  obtain a' st'' where
    res: "analyze_items cfg lower api p depth items (?pi, ?a, st') =
       (?pi\<lparr>pi_items := pi_items ?pi @ filter (\<lambda>it. \<not> is_dir it) items,
            pi_videoFiles := pi_videoFiles ?pi @ videos_of lower p items,
            pi_subdirectories := pi_subdirectories ?pi @ subdirs_of cfg lower p items\<rparr>, a', st'')"
    by blast
  show ?thesis
    unfolding analyzeRecursive_listed[where api=api and p=p and st=st, OF assms res]
    by (simp add: Let_def map_of_map_set record_of_def)
qed

lemma getFiles_request_failed:
  assumes "token = Some t" "t \<noteq> []" "list_response srv q = Inl err"
  shows "listDirectory srv q token = (Inr (Some []), token)"
  using assms by (simp add: listDirectory_def getFiles_def Let_def)

lemma reached_fuel:
  "\<not> depth > maxDepth cfg \<Longrightarrow> Suc (maxDepth cfg) - depth = Suc (maxDepth cfg - depth)"
  by simp

lemma walk_keys:
  "api = static f \<Longrightarrow>
   set (map fst (pathMap (fst (analyzeRecursive cfg lower api p depth s)))) =
     set (map fst (pathMap (fst s))) \<union> set (reached cfg lower f (Suc (maxDepth cfg) - depth) p)"
  "api = static f \<Longrightarrow>
   set (map fst (pathMap (fst (snd (analyze_items cfg lower api p depth items t))))) =
     set (map fst (pathMap (fst (snd t)))) \<union>
     (\<Union>it \<in> set (filter (\<lambda>it. is_dir it \<and> \<not> shouldIgnoreDirectory cfg lower (name it)) items).
         set (reached cfg lower f (maxDepth cfg - depth) (child_path p (name it))))"
proof (induction cfg lower api p depth s and cfg lower api p depth items t
       rule: analyzeRecursive_analyze_items.induct)
  case (1 cfg lower api currentPath depth a st)
  note api = "1.prems"
  show ?case
  proof (cases "depth > maxDepth cfg")
    case True
    then show ?thesis by (simp add: analyzeRecursive_too_deep)
  next
    case False
    note fuel = reached_fuel[OF False]
    have r: "api currentPath st = (f currentPath, st)" by (simp add: api static_def)
    show ?thesis
    proof (cases "f currentPath")
      case (Inl err)
      with r have r': "api currentPath st = (Inl err, st)" by simp
      show ?thesis
        by (simp add: analyzeRecursive_failed[where api=api and p=currentPath and st=st, OF False r']
            fuel Inl)
    next
      case (Inr content)
      with r have r': "api currentPath st = (Inr content, st)" by simp
      show ?thesis
      proof (cases content)
        case None
        show ?thesis
          by (simp add: analyzeRecursive_null[where api=api and p=currentPath and st=st, OF False r'[unfolded None]]
              fuel Inr None)
      next
        case (Some items)
        show ?thesis
        proof (cases "items = []")
          case True
          show ?thesis
            by (simp add: analyzeRecursive_empty[where api=api and p=currentPath and st=st, OF False r'[unfolded Some True]]
              fuel Inr Some True)
        next
          case ne: False
          let ?pi = "\<lparr>pi_path = currentPath, pi_depth = depth, pi_type = unknown_dir,
               pi_items = [], pi_videoFiles = [], pi_subdirectories = []\<rparr>"
          let ?a = "a\<lparr>totalDirectories := totalDirectories a + 1,
                      stat_maxDepth := max (stat_maxDepth a) depth\<rparr>"
          let ?dirs = "filter (\<lambda>it. is_dir it \<and> \<not> shouldIgnoreDirectory cfg lower (name it)) items"
          have IH: "set (map fst (pathMap (fst (snd (analyze_items cfg lower api currentPath depth items (?pi, ?a, st)))))) =
              set (map fst (pathMap (fst (snd (?pi, ?a, st))))) \<union>
              (\<Union>it \<in> set ?dirs. set (reached cfg lower f (maxDepth cfg - depth) (child_path currentPath (name it))))"
            using "1.IH"[OF False r'[unfolded Some, symmetric] refl refl ne refl refl api] .
          obtain pathInfo a' st'' where
            res: "analyze_items cfg lower api currentPath depth items (?pi, ?a, st) = (pathInfo, a', st'')"
            by (cases "analyze_items cfg lower api currentPath depth items (?pi, ?a, st)")
          from IH res have k: "set (map fst (pathMap a')) = set (map fst (pathMap a)) \<union>
              (\<Union>it \<in> set ?dirs. set (reached cfg lower f (maxDepth cfg - depth) (child_path currentPath (name it))))"
            by simp
          have "set (map fst (pathMap (fst (analyzeRecursive cfg lower api currentPath depth (a, st))))) =
              insert currentPath (set (map fst (pathMap a')))"
            unfolding analyzeRecursive_listed[where api=api and p=currentPath and st=st, OF False r'[unfolded Some] ne res]
            by (simp add: Let_def keys_map_set pathMap_categorize)
          also have "\<dots> = set (map fst (pathMap a)) \<union>
              set (reached cfg lower f (Suc (maxDepth cfg - depth)) currentPath)"
            unfolding k by (simp add: Inr Some ne)
          finally show ?thesis unfolding fuel by simp
        qed
      qed
    qed
  qed
next
  case (2 cfg lower api currentPath depth s)
  show ?case by (simp add: analyze_items_Nil)
next
  case (3 cfg lower api currentPath depth it items pathInfo a st)
  note api = "3.prems"
  show ?case
  proof (cases "is_dir it")
    case True
    show ?thesis
    proof (cases "shouldIgnoreDirectory cfg lower (name it)")
      case ign: True
      from "3.IH"(1)[OF refl True ign api] show ?thesis
        by (simp add: analyze_items_ignored[OF True ign] True ign)
    next
      case nign: False
      let ?x = "child_path currentPath (name it)"
      have P: "set (map fst (pathMap (fst (analyzeRecursive cfg lower api ?x (depth + 1) (a, st))))) =
           set (map fst (pathMap (fst (a, st)))) \<union>
           set (reached cfg lower f (Suc (maxDepth cfg) - (depth + 1)) ?x)"
        using "3.IH"(2)[OF refl True nign refl api] .
      obtain xb y where res: "analyzeRecursive cfg lower api ?x (depth + 1) (a, st) = (xb, y)"
        by (cases "analyzeRecursive cfg lower api ?x (depth + 1) (a, st)")
      from P res have P': "set (map fst (pathMap xb)) =
           set (map fst (pathMap a)) \<union> set (reached cfg lower f (maxDepth cfg - depth) ?x)"
        by simp
      note Q = "3.IH"(3)[OF refl True nign refl res[symmetric] api]
      show ?thesis
        unfolding analyze_items_dir[OF True nign res] using Q P'
        by (simp add: True nign) blast
    qed
  next
    case False
    show ?thesis
    proof (cases "pa_isVideoFile lower (name it)")
      case v: True
      from "3.IH"(4)[OF refl False refl v api] show ?thesis
        by (simp add: analyze_items_video[OF False v] False)
    next
      case nv: False
      from "3.IH"(5)[OF refl False refl nv api] show ?thesis
        by (simp add: analyze_items_other[OF False nv] False)
    qed
  qed
qed

lemma set_map_set: "set (map_set m k v) \<subseteq> insert (k, v) (set m)"
  by (induction m) (auto split: if_splits)

lemma record_of_depth: "pi_depth (record_of cfg lower p depth items) = depth"
  by (simp add: record_of_def Let_def)

lemma records_ok_map_set:
  assumes "records_ok cfg lower f m" "f k = Inr (Some its)" "its \<noteq> []"
  shows "records_ok cfg lower f (map_set m k (record_of cfg lower k depth its))"
proof -
  have "\<exists>its'. f q = Inr (Some its') \<and> its' \<noteq> [] \<and> r = record_of cfg lower q (pi_depth r) its'"
    if "(q, r) \<in> set (map_set m k (record_of cfg lower k depth its))" for q r
  proof -
    from that set_map_set[of m k "record_of cfg lower k depth its"]
    have "(q, r) = (k, record_of cfg lower k depth its) \<or> (q, r) \<in> set m" by auto
    then show ?thesis
    proof
      assume "(q, r) = (k, record_of cfg lower k depth its)"
      with assms(2,3) show ?thesis by (auto simp: record_of_depth)
    next
      assume "(q, r) \<in> set m"
      with assms(1) show ?thesis unfolding records_ok_def by blast
    qed
  qed
  then show ?thesis unfolding records_ok_def by blast
qed

lemma listed_record:
  assumes "\<not> depth > maxDepth cfg" "api p st = (Inr (Some items), st')" "items \<noteq> []"
  shows "\<exists>a' st''. analyzeRecursive cfg lower api p depth (a, st) =
           ((categorizeDirectory (record_of cfg lower p depth items) a')
              \<lparr>pathMap := map_set (pathMap a') p (record_of cfg lower p depth items)\<rparr>, st'') \<and>
           analyze_items cfg lower api p depth items
             (\<lparr>pi_path = p, pi_depth = depth, pi_type = unknown_dir, pi_items = [],
               pi_videoFiles = [], pi_subdirectories = []\<rparr>,
              a\<lparr>totalDirectories := totalDirectories a + 1,
                stat_maxDepth := max (stat_maxDepth a) depth\<rparr>, st') =
             (\<lparr>pi_path = p, pi_depth = depth, pi_type = unknown_dir,
               pi_items = filter (\<lambda>it. \<not> is_dir it) items,
               pi_videoFiles = videos_of lower p items,
               pi_subdirectories = subdirs_of cfg lower p items\<rparr>, a', st'')"
proof -
  let ?pi = "\<lparr>pi_path = p, pi_depth = depth, pi_type = unknown_dir, pi_items = [],
       pi_videoFiles = [], pi_subdirectories = []\<rparr>"
  let ?a = "a\<lparr>totalDirectories := totalDirectories a + 1,
        stat_maxDepth := max (stat_maxDepth a) depth\<rparr>"
  from analyze_items_record[of cfg lower api p depth items ?pi ?a st']
  obtain a' st'' where
    res: "analyze_items cfg lower api p depth items (?pi, ?a, st') =
       (?pi\<lparr>pi_items := pi_items ?pi @ filter (\<lambda>it. \<not> is_dir it) items,
            pi_videoFiles := pi_videoFiles ?pi @ videos_of lower p items,
            pi_subdirectories := pi_subdirectories ?pi @ subdirs_of cfg lower p items\<rparr>, a', st'')"
    by blast
  have "analyzeRecursive cfg lower api p depth (a, st) =
           ((categorizeDirectory (record_of cfg lower p depth items) a')
              \<lparr>pathMap := map_set (pathMap a') p (record_of cfg lower p depth items)\<rparr>, st'')"
    unfolding analyzeRecursive_listed[where api=api and p=p and st=st, OF assms res]
    by (simp add: Let_def record_of_def pathMap_categorize)
  with res show ?thesis by (intro exI[of _ a'] exI[of _ st'']) simp
qed

lemma walk_records:
  "api = static f \<Longrightarrow> records_ok cfg lower f (pathMap (fst s)) \<Longrightarrow>
   records_ok cfg lower f (pathMap (fst (analyzeRecursive cfg lower api p depth s)))"
  "api = static f \<Longrightarrow> records_ok cfg lower f (pathMap (fst (snd t))) \<Longrightarrow>
   records_ok cfg lower f (pathMap (fst (snd (analyze_items cfg lower api p depth items t))))"
proof (induction cfg lower api p depth s and cfg lower api p depth items t
       rule: analyzeRecursive_analyze_items.induct)
  case (1 cfg lower api currentPath depth a st)
  note api = "1.prems"(1)
  from "1.prems"(2) have ok: "records_ok cfg lower f (pathMap a)" by simp
  show ?case
  proof (cases "depth > maxDepth cfg")
    case True
    with ok show ?thesis by (simp add: analyzeRecursive_too_deep)
  next
    case False
    have r: "api currentPath st = (f currentPath, st)" by (simp add: api static_def)
    show ?thesis
    proof (cases "f currentPath")
      case (Inl err)
      with r have r': "api currentPath st = (Inl err, st)" by simp
      from ok show ?thesis
        by (simp add: analyzeRecursive_failed[where api=api and p=currentPath and st=st, OF False r'])
    next
      case (Inr content)
      with r have r': "api currentPath st = (Inr content, st)" by simp
      show ?thesis
      proof (cases content)
        case None
        from ok show ?thesis
          by (simp add: analyzeRecursive_null[where api=api and p=currentPath and st=st, OF False r'[unfolded None]])
      next
        case (Some items)
        show ?thesis
        proof (cases "items = []")
          case True
          from ok show ?thesis
            by (simp add: analyzeRecursive_empty[where api=api and p=currentPath and st=st, OF False r'[unfolded Some True]])
        next
          case ne: False
          let ?pi = "\<lparr>pi_path = currentPath, pi_depth = depth, pi_type = unknown_dir,
               pi_items = [], pi_videoFiles = [], pi_subdirectories = []\<rparr>"
          let ?a = "a\<lparr>totalDirectories := totalDirectories a + 1,
                      stat_maxDepth := max (stat_maxDepth a) depth\<rparr>"
          from ok have ok': "records_ok cfg lower f (pathMap (fst (snd (?pi, ?a, st))))" by simp
          have IH: "records_ok cfg lower f
              (pathMap (fst (snd (analyze_items cfg lower api currentPath depth items (?pi, ?a, st)))))"
            using "1.IH"[OF False r'[unfolded Some, symmetric] refl refl ne refl refl api ok'] .
          from listed_record[where api=api and p=currentPath and st=st and a=a, OF False r'[unfolded Some] ne]
          obtain a' st'' where
            res: "analyzeRecursive cfg lower api currentPath depth (a, st) =
               ((categorizeDirectory (record_of cfg lower currentPath depth items) a')
                  \<lparr>pathMap := map_set (pathMap a') currentPath (record_of cfg lower currentPath depth items)\<rparr>, st'')"
            and it: "analyze_items cfg lower api currentPath depth items (?pi, ?a, st) =
               (\<lparr>pi_path = currentPath, pi_depth = depth, pi_type = unknown_dir,
                 pi_items = filter (\<lambda>it. \<not> is_dir it) items,
                 pi_videoFiles = videos_of lower currentPath items,
                 pi_subdirectories = subdirs_of cfg lower currentPath items\<rparr>, a', st'')"
            by blast
          from IH it have "records_ok cfg lower f (pathMap a')" by simp
          from records_ok_map_set[OF this _ ne, of currentPath depth] Inr Some
          have "records_ok cfg lower f
              (map_set (pathMap a') currentPath (record_of cfg lower currentPath depth items))"
            by simp
          then show ?thesis unfolding res by simp
        qed
      qed
    qed
  qed
next
  case (2 cfg lower api currentPath depth s)
  then show ?case by (simp add: analyze_items_Nil)
next
  case (3 cfg lower api currentPath depth it items pathInfo a st)
  note api = "3.prems"(1)
  from "3.prems"(2) have ok: "records_ok cfg lower f (pathMap a)" by simp
  show ?case
  proof (cases "is_dir it")
    case True
    show ?thesis
    proof (cases "shouldIgnoreDirectory cfg lower (name it)")
      case ign: True
      from "3.IH"(1)[OF refl True ign api] ok show ?thesis
        by (simp add: analyze_items_ignored[OF True ign])
    next
      case nign: False
      let ?x = "child_path currentPath (name it)"
      from ok have ok0: "records_ok cfg lower f (pathMap (fst (a, st)))" by simp
      have P: "records_ok cfg lower f
           (pathMap (fst (analyzeRecursive cfg lower api ?x (depth + 1) (a, st))))"
        using "3.IH"(2)[OF refl True nign refl api ok0] .
      obtain xb y where res: "analyzeRecursive cfg lower api ?x (depth + 1) (a, st) = (xb, y)"
        by (cases "analyzeRecursive cfg lower api ?x (depth + 1) (a, st)")
      from P res have P': "records_ok cfg lower f (pathMap xb)" by simp
      note Q = "3.IH"(3)[OF refl True nign refl res[symmetric] api]
      show ?thesis
        unfolding analyze_items_dir[OF True nign res] using Q P' by simp
    qed
  next
    case False
    show ?thesis
    proof (cases "pa_isVideoFile lower (name it)")
      case v: True
      from "3.IH"(4)[OF refl False refl v api] ok show ?thesis
        by (simp add: analyze_items_video[OF False v])
    next
      case nv: False
      from "3.IH"(5)[OF refl False refl nv api] ok show ?thesis
        by (simp add: analyze_items_other[OF False nv])
    qed
  qed
qed

lemma failed_sibling:
  assumes "is_dir it" "\<not> shouldIgnoreDirectory cfg lower (name it)" "depth < maxDepth cfg"
    "api (child_path p (name it)) st = (Inl err, st')"
  shows "analyze_items cfg lower api p depth (it # rest) (pathInfo, a, st) =
         analyze_items cfg lower api p depth rest
           (pathInfo\<lparr>pi_subdirectories := pi_subdirectories pathInfo @
              [\<lparr>sd_name = name it, sd_path = child_path p (name it),
                sd_type = classifyDirectory cfg (name it)\<rparr>]\<rparr>, a, st')"
proof -
  from assms(3) have d: "\<not> depth + 1 > maxDepth cfg" by simp
  from analyzeRecursive_failed[where api=api and p="child_path p (name it)" and st=st, OF d assms(4)]
  have "analyzeRecursive cfg lower api (child_path p (name it)) (depth + 1) (a, st) = (a, st')" .
  from analyze_items_dir[OF assms(1,2) this] show ?thesis .
qed

lemma walk_init_records: "records_ok cfg lower f (pathMap walk_init)"
  by (simp add: records_ok_def walk_init_def)

text \<open>
  C9. Answering every failed listing with an empty listing leaves the walk unchanged:
  the walk always returns, a failure counts as zero entries. At a path within the depth
  bound whose listing fails the walk returns the accumulator as it was, and the loop over
  the items of the parent goes on with the later siblings from that accumulator. A
  directory whose own listing succeeds gets its record and its type from that listing
  alone, whatever the listings of its children do. Over a fixed tree the walk records
  exactly the directories that are reached through successful listings, so a failed
  listing hides its own subtree and nothing else, and every record is the record of the
  listing of its own path. In the client, a failed list request (with a token in hand)
  is answered with the empty list.
\<close>

theorem C9_failed_listing:
  "analyzeRecursive cfg lower api p depth (a, st) =
     analyzeRecursive cfg lower (caught api) p depth (a, st) \<and>
   (depth \<le> maxDepth cfg \<and> api p st = (Inl err, st') \<longrightarrow>
      analyzeRecursive cfg lower api p depth (a, st) = (a, st')) \<and>
   (is_dir it \<and> \<not> shouldIgnoreDirectory cfg lower (name it) \<and> depth < maxDepth cfg \<and>
    api (child_path p (name it)) st = (Inl err, st') \<longrightarrow>
      analyze_items cfg lower api p depth (it # rest) (pathInfo, a, st) =
      analyze_items cfg lower api p depth rest
        (pathInfo\<lparr>pi_subdirectories := pi_subdirectories pathInfo @
           [\<lparr>sd_name = name it, sd_path = child_path p (name it),
             sd_type = classifyDirectory cfg (name it)\<rparr>]\<rparr>, a, st')) \<and>
   (depth \<le> maxDepth cfg \<and> api p st = (Inr (Some items), st') \<and> items \<noteq> [] \<longrightarrow>
      map_of (pathMap (fst (analyzeRecursive cfg lower api p depth (a, st)))) p =
        Some (record_of cfg lower p depth items)) \<and>
   set (map fst (pathMap (fst (analyzeRecursive cfg lower (static f) p depth (a, st))))) =
     set (map fst (pathMap a)) \<union> set (reached cfg lower f (Suc (maxDepth cfg) - depth) p) \<and>
   (\<forall>(d, r) \<in> set (pathMap (fst (analyzeRecursive cfg lower (static f) p depth (walk_init, st)))).
      \<exists>its. f d = Inr (Some its) \<and> its \<noteq> [] \<and> r = record_of cfg lower d (pi_depth r) its) \<and>
   (token = Some t \<and> t \<noteq> [] \<and> list_response srv q = Inl err \<longrightarrow>
      listDirectory srv q token = (Inr (Some []), token))"
proof -
  have 1: "analyzeRecursive cfg lower api p depth (a, st) =
     analyzeRecursive cfg lower (caught api) p depth (a, st)"
    by (rule walk_caught(1))
  have 2: "depth \<le> maxDepth cfg \<and> api p st = (Inl err, st') \<longrightarrow>
      analyzeRecursive cfg lower api p depth (a, st) = (a, st')"
  proof
    assume h: "depth \<le> maxDepth cfg \<and> api p st = (Inl err, st')"
    then have "\<not> depth > maxDepth cfg" by simp
    from analyzeRecursive_failed[where api=api and p=p and st=st, OF this conjunct2[OF h]]
    show "analyzeRecursive cfg lower api p depth (a, st) = (a, st')" .
  qed
  have 3: "is_dir it \<and> \<not> shouldIgnoreDirectory cfg lower (name it) \<and> depth < maxDepth cfg \<and>
    api (child_path p (name it)) st = (Inl err, st') \<longrightarrow>
      analyze_items cfg lower api p depth (it # rest) (pathInfo, a, st) =
      analyze_items cfg lower api p depth rest
        (pathInfo\<lparr>pi_subdirectories := pi_subdirectories pathInfo @
           [\<lparr>sd_name = name it, sd_path = child_path p (name it),
             sd_type = classifyDirectory cfg (name it)\<rparr>]\<rparr>, a, st')"
  proof
    assume h: "is_dir it \<and> \<not> shouldIgnoreDirectory cfg lower (name it) \<and> depth < maxDepth cfg \<and>
      api (child_path p (name it)) st = (Inl err, st')"
    then have h1: "is_dir it" and h2: "\<not> shouldIgnoreDirectory cfg lower (name it)"
      and h3: "depth < maxDepth cfg" and h4: "api (child_path p (name it)) st = (Inl err, st')"
      by simp_all
    from failed_sibling[where api=api and st=st, OF h1 h2 h3 h4]
    show "analyze_items cfg lower api p depth (it # rest) (pathInfo, a, st) =
      analyze_items cfg lower api p depth rest
        (pathInfo\<lparr>pi_subdirectories := pi_subdirectories pathInfo @
           [\<lparr>sd_name = name it, sd_path = child_path p (name it),
             sd_type = classifyDirectory cfg (name it)\<rparr>]\<rparr>, a, st')" .
  qed
  have 4: "depth \<le> maxDepth cfg \<and> api p st = (Inr (Some items), st') \<and> items \<noteq> [] \<longrightarrow>
      map_of (pathMap (fst (analyzeRecursive cfg lower api p depth (a, st)))) p =
        Some (record_of cfg lower p depth items)"
  proof
    assume h: "depth \<le> maxDepth cfg \<and> api p st = (Inr (Some items), st') \<and> items \<noteq> []"
    then have d: "\<not> depth > maxDepth cfg" by simp
    from h have l: "api p st = (Inr (Some items), st')" and ne: "items \<noteq> []" by simp_all
    from parent_record[where api=api and p=p and st=st, OF d l ne]
    show "map_of (pathMap (fst (analyzeRecursive cfg lower api p depth (a, st)))) p =
        Some (record_of cfg lower p depth items)" .
  qed
  have 5: "set (map fst (pathMap (fst (analyzeRecursive cfg lower (static f) p depth (a, st))))) =
     set (map fst (pathMap a)) \<union> set (reached cfg lower f (Suc (maxDepth cfg) - depth) p)"
    using walk_keys(1)[OF refl, of cfg lower f p depth "(a, st)"] by simp
  have 6: "\<forall>(d, r) \<in> set (pathMap (fst (analyzeRecursive cfg lower (static f) p depth (walk_init, st)))).
      \<exists>its. f d = Inr (Some its) \<and> its \<noteq> [] \<and> r = record_of cfg lower d (pi_depth r) its"
    using walk_records(1)[OF refl, of cfg lower f "(walk_init, st)" p depth] walk_init_records[of cfg lower f]
    unfolding records_ok_def by simp
  have 7: "token = Some t \<and> t \<noteq> [] \<and> list_response srv q = Inl err \<longrightarrow>
      listDirectory srv q token = (Inr (Some []), token)"
    by (simp add: getFiles_request_failed)
  from 1 2 3 4 5 6 7 show ?thesis by (intro conjI)
qed

theorem C9_failed_listing_witness:
  "static demo_dirs (js ''/r/bad'') () = (Inl (Failure (js ''timeout'')), ()) \<and>
   analyzeRecursive default_pa_config ascii_lower (static demo_dirs) (js ''/r/bad'') 1 (walk_init, ())
     = (walk_init, ()) \<and>
   analyze_items default_pa_config ascii_lower (static demo_dirs) (js ''/r/sub'') 1
       [season_dir ''bad'', season_dir ''good''] (empty_record (js ''/r/sub'') 1, walk_init, ()) =
     analyze_items default_pa_config ascii_lower (static demo_dirs) (js ''/r/sub'') 1
       [season_dir ''good'']
       ((empty_record (js ''/r/sub'') 1)
          \<lparr>pi_subdirectories := [\<lparr>sd_name = js ''bad'', sd_path = js ''/r/sub/bad'',
                                    sd_type = Content\<rparr>]\<rparr>, walk_init, ()) \<and>
   set (map fst (pathMap (fst (analyzeRecursive default_pa_config ascii_lower (static demo_dirs)
                                 (js ''/r'') 0 (walk_init, ())))))
     = {js ''/r/sub/good'', js ''/r/sub'', js ''/r''} \<and>
   map_option pi_type
     (map_of (pathMap (fst (analyzeRecursive default_pa_config ascii_lower (static demo_dirs)
                              (js ''/r'') 0 (walk_init, ())))) (js ''/r'')) = Some movie_collection \<and>
   snd (hd (pathMap (fst (analyzeRecursive default_pa_config ascii_lower (static demo_dirs)
                            (js ''/r'') 0 (walk_init, ())))))
     = record_of default_pa_config ascii_lower (js ''/r/sub/good'') 2 [file_of ''b.mkv''] \<and>
   listDirectory failing_server (js ''/r'') (Some (js ''token'')) = (Inr (Some []), Some (js ''token''))"
proof -
  let ?api = "static demo_dirs :: unit api"
  let ?W = "fst (analyzeRecursive default_pa_config ascii_lower ?api (js ''/r'') 0 (walk_init, ()))"
  have d1: "(1::nat) \<le> maxDepth default_pa_config" by (simp add: default_pa_config_def)
  have d1': "(1::nat) < maxDepth default_pa_config" by (simp add: default_pa_config_def)
  have d0: "(0::nat) \<le> maxDepth default_pa_config" by simp
  have bad: "?api (js ''/r/bad'') () = (Inl (Failure (js ''timeout'')), ())" by code_simp
  have root: "?api (js ''/r'') () =
      (Inr (Some [season_dir ''bad'', season_dir ''sub'', file_of ''a.mkv'']), ())" by code_simp
  have ne: "[season_dir ''bad'', season_dir ''sub'', file_of ''a.mkv''] \<noteq> []" by simp
  have srv: "list_response failing_server (js ''/r'') = Inl (Failure (js ''timeout''))"
    by (simp add: failing_server_def)
  have tok: "js ''token'' \<noteq> []" by (simp add: js_def)
  note t1 = C9_failed_listing[where cfg=default_pa_config and lower=ascii_lower
      and api="?api" and p="js ''/r/bad''" and depth=1 and a=walk_init and st="()"
      and err="Failure (js ''timeout'')" and st'="()"]
  from t1[THEN conjunct2, THEN conjunct1] d1 bad
  have 1: "analyzeRecursive default_pa_config ascii_lower ?api (js ''/r/bad'') 1 (walk_init, ())
     = (walk_init, ())" by blast
  have s1: "is_dir (season_dir ''bad'')" by (simp add: season_dir_def)
  have s2: "\<not> shouldIgnoreDirectory default_pa_config ascii_lower (name (season_dir ''bad''))"
    by code_simp
  have s3: "child_path (js ''/r/sub'') (name (season_dir ''bad'')) = js ''/r/sub/bad''"
    by code_simp
  have s4: "?api (js ''/r/sub/bad'') () = (Inl (Failure (js ''timeout'')), ())" by code_simp
  have s5: "classifyDirectory default_pa_config (name (season_dir ''bad'')) = Content"
    by code_simp
  have s6: "name (season_dir ''bad'') = js ''bad''" by (simp add: season_dir_def)
  have s7: "pi_subdirectories (empty_record (js ''/r/sub'') 1) = []" by (simp add: empty_record_def)
  note t3 = C9_failed_listing[where cfg=default_pa_config and lower=ascii_lower
      and api="?api" and p="js ''/r/sub''" and depth=1 and a=walk_init and st="()"
      and err="Failure (js ''timeout'')" and st'="()" and it="season_dir ''bad''"
      and rest="[season_dir ''good'']" and pathInfo="empty_record (js ''/r/sub'') 1"]
  from t3[THEN conjunct2, THEN conjunct2, THEN conjunct1] s1 s2 d1' s4[folded s3]
  have "analyze_items default_pa_config ascii_lower ?api (js ''/r/sub'') 1
       (season_dir ''bad'' # [season_dir ''good'']) (empty_record (js ''/r/sub'') 1, walk_init, ()) =
     analyze_items default_pa_config ascii_lower ?api (js ''/r/sub'') 1 [season_dir ''good'']
       ((empty_record (js ''/r/sub'') 1)
          \<lparr>pi_subdirectories := pi_subdirectories (empty_record (js ''/r/sub'') 1) @
             [\<lparr>sd_name = name (season_dir ''bad''),
               sd_path = child_path (js ''/r/sub'') (name (season_dir ''bad'')),
               sd_type = classifyDirectory default_pa_config (name (season_dir ''bad''))\<rparr>]\<rparr>,
        walk_init, ())"
    by blast
  then have 2: "analyze_items default_pa_config ascii_lower ?api (js ''/r/sub'') 1
       [season_dir ''bad'', season_dir ''good''] (empty_record (js ''/r/sub'') 1, walk_init, ()) =
     analyze_items default_pa_config ascii_lower ?api (js ''/r/sub'') 1 [season_dir ''good'']
       ((empty_record (js ''/r/sub'') 1)
          \<lparr>pi_subdirectories := [\<lparr>sd_name = js ''bad'', sd_path = js ''/r/sub/bad'',
                                    sd_type = Content\<rparr>]\<rparr>, walk_init, ())"
    unfolding s6 s7 s3[unfolded s6] s5[unfolded s6] by simp
  note t2 = C9_failed_listing[where cfg=default_pa_config and lower=ascii_lower
      and api="?api" and p="js ''/r''" and depth=0 and a=walk_init and st="()" and st'="()"
      and items="[season_dir ''bad'', season_dir ''sub'', file_of ''a.mkv'']"
      and token="Some (js ''token'')" and t="js ''token''" and srv=failing_server
      and q="js ''/r''" and err="Failure (js ''timeout'')" and f=demo_dirs]
  from t2[THEN conjunct2, THEN conjunct2, THEN conjunct2, THEN conjunct1] d0 root ne
  have r: "map_of (pathMap ?W) (js ''/r'') =
      Some (record_of default_pa_config ascii_lower (js ''/r'') 0
              [season_dir ''bad'', season_dir ''sub'', file_of ''a.mkv''])" by blast
  have ty: "pi_type (record_of default_pa_config ascii_lower (js ''/r'') 0
              [season_dir ''bad'', season_dir ''sub'', file_of ''a.mkv'']) = movie_collection"
    by code_simp
  from r ty have 4: "map_option pi_type (map_of (pathMap ?W) (js ''/r'')) = Some movie_collection"
    by simp
  have re: "reached default_pa_config ascii_lower demo_dirs (Suc (maxDepth default_pa_config) - 0)
              (js ''/r'') = [js ''/r/sub/good'', js ''/r/sub'', js ''/r'']"
    by code_simp
  from t2[THEN conjunct2, THEN conjunct2, THEN conjunct2, THEN conjunct2, THEN conjunct1]
  have 3: "set (map fst (pathMap ?W)) = {js ''/r/sub/good'', js ''/r/sub'', js ''/r''}"
    unfolding re by (simp add: walk_init_def)
  have hd_in: "hd (pathMap ?W) \<in> set (pathMap ?W)" by code_simp
  have hd_key: "fst (hd (pathMap ?W)) = js ''/r/sub/good''" by code_simp
  have hd_depth: "pi_depth (snd (hd (pathMap ?W))) = 2" by code_simp
  have good: "demo_dirs (js ''/r/sub/good'') = Inr (Some [file_of ''b.mkv''])" by code_simp
  from t2[THEN conjunct2, THEN conjunct2, THEN conjunct2, THEN conjunct2, THEN conjunct2,
          THEN conjunct1] hd_in
  have "\<exists>its. demo_dirs (fst (hd (pathMap ?W))) = Inr (Some its) \<and> its \<noteq> [] \<and>
     snd (hd (pathMap ?W)) =
       record_of default_pa_config ascii_lower (fst (hd (pathMap ?W)))
         (pi_depth (snd (hd (pathMap ?W)))) its"
    by (auto simp: case_prod_beta)
  then have 5: "snd (hd (pathMap ?W)) =
      record_of default_pa_config ascii_lower (js ''/r/sub/good'') 2 [file_of ''b.mkv'']"
    unfolding hd_key hd_depth good by simp
  from t2[THEN conjunct2, THEN conjunct2, THEN conjunct2, THEN conjunct2, THEN conjunct2,
          THEN conjunct2] srv tok
  have 6: "listDirectory failing_server (js ''/r'') (Some (js ''token'')) =
      (Inr (Some []), Some (js ''token''))" by blast
  from bad 1 2 3 4 5 6 show ?thesis by (intro conjI)
qed


section \<open>Title extraction\<close>

lemma pa_extractTitle_fallback:
  "pa_extractTitle f = (if pa_clean f = [] then f else pa_clean f)"
  by (simp add: pa_extractTitle_def Let_def)

lemma pa_extractTitle_nonempty: "f \<noteq> [] \<Longrightarrow> pa_extractTitle f \<noteq> []"
  by (simp add: pa_extractTitle_fallback)

text \<open>
  C7. For the name \<open>1080p.mkv\<close> the title extraction of ContentDetector returns the
  empty string, although the trimmed name is not empty; the extraction of PathAnalyzer
  falls back to the name.
\<close>

theorem C7_empty_title:
  "extractTitle (js ''1080p.mkv'') = [] \<and>
   trim (js ''1080p.mkv'') = js ''1080p.mkv'' \<and>
   pa_extractTitle (js ''1080p.mkv'') = js ''1080p.mkv''"
  by code_simp

lemma search_None_replace: "search r p xs = None \<Longrightarrow> replace_from r rep p xs = xs"
proof (induction xs arbitrary: p)
  case Nil
  then show ?case by (cases "steps r ([], p, [])") simp_all
next
  case (Cons x t)
  show ?case
  proof (cases "steps r ([], p, x # t)")
    case Nil
    with Cons.prems have "search r (x # p) t = None" by simp
    from Cons.IH[OF this] Nil show ?thesis by simp
  next
    case (Cons s ss)
    with Cons.prems show ?thesis by simp
  qed
qed

lemma no_match_replace_all: "re_match r s = None \<Longrightarrow> replace_all r rep s = s"
  by (simp add: re_match_def replace_all_def search_None_replace)

lemma no_match_replace_first: "re_match r s = None \<Longrightarrow> replace_first r rep s = s"
  by (simp add: replace_first_def)

lemma collapse_in_run:
  "collapse k rep True xs = collapse k rep False (dropWhile (cls_ok k) xs)"
  by (induction xs) simp_all

lemma steps_run_none:
  "\<not> cls_ok k x \<Longrightarrow> steps (Rep k 1 None) (g, p, x # t) = []"
  by (simp add: run_len_def)

lemma steps_run_empty: "steps (Rep k 1 None) (g, p, []) = []"
  by (simp add: run_len_def)

lemma steps_run_head:
  assumes "cls_ok k x"
  shows "\<exists>p' ss. steps (Rep k 1 None) (g, p, x # t) = (g, p', dropWhile (cls_ok k) t) # ss"
proof -
  let ?n = "length (takeWhile (cls_ok k) (x # t))"
  from assms have n: "?n = Suc (length (takeWhile (cls_ok k) t))" by simp
  have r: "run_len k None (x # t) = ?n" by (simp add: run_len_def)
  have u: "rev [1 ..< Suc ?n] = ?n # rev [1 ..< ?n]" using n by simp
  have d: "drop ?n (x # t) = dropWhile (cls_ok k) t"
    using assms by (simp add: dropWhile_eq_drop)
  have "steps (Rep k 1 None) (g, p, x # t) =
      advance (g, p, x # t) ?n # map (advance (g, p, x # t)) (rev [1 ..< ?n])"
    unfolding steps.simps snd_conv r u by simp
  also have "advance (g, p, x # t) ?n = (g, rev (take ?n (x # t)) @ p, dropWhile (cls_ok k) t)"
    unfolding advance_def using d by simp
  finally show ?thesis by blast
qed

lemma replace_run_collapse:
  "replace_from (Rep k 1 None) rep p xs = collapse k rep False xs"
proof (induction xs arbitrary: p rule: length_induct)
  case (1 xs)
  show ?case
  proof (cases xs)
    case Nil
    have "replace_from (Rep k 1 None) rep p [] = []"
      by (simp only: replace_from.simps steps_run_empty list.case)
    with Nil show ?thesis by simp
  next
    case (Cons x t)
    show ?thesis
    proof (cases "cls_ok k x")
      case False
      have "length t < length xs" using Cons by simp
      with 1 have "replace_from (Rep k 1 None) rep (x # p) t = collapse k rep False t" by blast
      moreover have "replace_from (Rep k 1 None) rep p (x # t) =
          x # replace_from (Rep k 1 None) rep (x # p) t"
        by (simp only: replace_from.simps steps_run_none[OF False] list.case)
      ultimately show ?thesis using False Cons by simp
    next
      case True
      from steps_run_head[OF True, of "[]" p t] obtain p' ss where
        s: "steps (Rep k 1 None) ([], p, x # t) = ([], p', dropWhile (cls_ok k) t) # ss" by blast
      have len: "length (dropWhile (cls_ok k) t) < length (x # t)"
        using length_dropWhile_le[of "cls_ok k" t] by simp
      with Cons have "length (dropWhile (cls_ok k) t) < length xs" by simp
      with 1 have IH: "replace_from (Rep k 1 None) rep p' (dropWhile (cls_ok k) t) =
          collapse k rep False (dropWhile (cls_ok k) t)" by blast
      have "replace_from (Rep k 1 None) rep p (x # t) =
          rep @ replace_from (Rep k 1 None) rep p' (dropWhile (cls_ok k) t)"
        using len by (simp only: replace_from.simps s list.case prod.case if_True)
      with IH True Cons show ?thesis by (simp add: collapse_in_run)
    qed
  qed
qed

lemma collapse_units:
  "c \<in> set (collapse k rep b xs) \<Longrightarrow> c \<in> set rep \<or> (c \<in> set xs \<and> \<not> cls_ok k c)"
  by (induction xs arbitrary: b) (auto split: if_splits)

lemma collapse_none: "\<forall>c \<in> set xs. \<not> cls_ok k c \<Longrightarrow> collapse k rep b xs = xs"
  by (induction xs arbitrary: b) simp_all

lemma collapse_spaced: "spaced b (collapse space [32] b xs)"
proof (induction xs arbitrary: b)
  case Nil
  show ?case by simp
next
  case (Cons x xs)
  have sp: "cls_ok space 32" by (simp add: space_def space_ranges_def)
  show ?case
  proof (cases "cls_ok space x")
    case True
    with Cons[of True] sp show ?thesis by simp
  next
    case False
    with Cons[of False] show ?thesis by simp
  qed
qed

lemma spaced_weaken: "spaced b xs \<Longrightarrow> spaced False xs"
  by (cases xs) (simp_all split: if_splits)

lemma spaced_collapse_id: "spaced b xs \<Longrightarrow> collapse space [32] b xs = xs"
  by (induction xs arbitrary: b) (simp_all split: if_splits)

lemma spaced_suffix: "spaced b (xs @ ys) \<Longrightarrow> spaced False ys"
proof (induction xs arbitrary: b)
  case Nil
  then show ?case by (simp add: spaced_weaken)
next
  case (Cons x xs)
  from Cons.prems have "spaced True (xs @ ys) \<or> spaced False (xs @ ys)"
    by (simp split: if_splits)
  then show ?case using Cons.IH by blast
qed

lemma spaced_prefix: "spaced b (xs @ ys) \<Longrightarrow> spaced b xs"
  by (induction xs arbitrary: b) (simp_all split: if_splits)

lemma trim_parts:
  "\<exists>l r. s = l @ trim s @ r"
proof -
  let ?s1 = "dropWhile (cls_ok space) s"
  have 1: "s = takeWhile (cls_ok space) s @ ?s1" by simp
  have "rev ?s1 = takeWhile (cls_ok space) (rev ?s1) @ dropWhile (cls_ok space) (rev ?s1)" by simp
  then have "?s1 = rev (dropWhile (cls_ok space) (rev ?s1)) @ rev (takeWhile (cls_ok space) (rev ?s1))"
    by (metis rev_append rev_rev_ident)
  then have 2: "?s1 = trim s @ rev (takeWhile (cls_ok space) (rev ?s1))" by (simp add: trim_def)
  from 1 2 show ?thesis by metis
qed

lemma spaced_trim: "spaced b s \<Longrightarrow> spaced False (trim s)"
proof -
  assume a: "spaced b s"
  from trim_parts[of s] obtain l r where s: "s = l @ trim s @ r" by blast
  from a have "spaced b (l @ (trim s @ r))" using s by simp
  then have "spaced False (trim s @ r)" by (rule spaced_suffix)
  then show ?thesis by (rule spaced_prefix)
qed

lemma set_trim: "set (trim s) \<subseteq> set s"
proof -
  from trim_parts[of s] obtain l r where s: "s = l @ trim s @ r" by blast
  have "set (trim s) \<subseteq> set (l @ trim s @ r)" by auto
  with s show ?thesis by simp
qed

lemma dropWhile_hd_id: "xs = [] \<or> \<not> P (hd xs) \<Longrightarrow> dropWhile P xs = xs"
  by (cases xs) auto

lemma dropWhile_starts: "dropWhile P xs = [] \<or> \<not> P (hd (dropWhile P xs))"
  by (metis hd_dropWhile)

lemma trim_trim: "trim (trim s) = trim s"
proof -
  let ?P = "cls_ok space"
  let ?s1 = "dropWhile ?P s"
  let ?r = "dropWhile ?P (rev ?s1)"
  have t: "trim s = rev ?r" by (simp add: trim_def)
  have head_id: "dropWhile ?P (rev ?r) = rev ?r"
  proof (cases "rev ?r = []")
    case True
    show ?thesis unfolding True by simp
  next
    case False
    have "?s1 = rev ?r @ rev (takeWhile ?P (rev ?s1))"
      by (metis rev_append rev_rev_ident takeWhile_dropWhile_id)
    with False have "hd (rev ?r) = hd ?s1" by (metis hd_append2)
    moreover have "?s1 \<noteq> []"
    proof
      assume e: "?s1 = []"
      have "rev ?r = []" unfolding e by simp
      with False show False ..
    qed
    then have "\<not> ?P (hd ?s1)" by (rule hd_dropWhile)
    ultimately show ?thesis using dropWhile_hd_id[of "rev ?r" ?P] by simp
  qed
  have tail_id: "dropWhile ?P ?r = ?r"
    using dropWhile_hd_id[of ?r ?P] dropWhile_starts[of ?P "rev ?s1"] by blast
  show ?thesis
    unfolding t unfolding trim_def head_id rev_rev_ident tail_id ..
qed

lemma cls_one: "cls_ok (one c) x = (x = c)"
  by (auto simp: one_def)

lemma ext_steps_empty: "steps ext_re (g, p, []) = []"
  by (simp add: ext_re_def)

lemma ext_steps_other: "x \<noteq> 46 \<Longrightarrow> steps ext_re (g, p, x # t) = []"
  by (simp add: ext_re_def cls_one)

lemma ext_no_dot: "46 \<notin> set xs \<Longrightarrow> search ext_re p xs = None"
proof (induction xs arbitrary: p)
  case Nil
  show ?case by (simp only: search.simps ext_steps_empty list.case)
next
  case (Cons x t)
  then have x: "x \<noteq> 46" and t: "46 \<notin> set t" by auto
  from Cons.IH[OF t, of "x # p"] show ?case
    by (simp only: search.simps ext_steps_other[OF x] list.case)
qed

lemma foldl_no_token:
  "list_all (\<lambda>r. re_match r t = None) rs \<Longrightarrow> foldl (\<lambda>t r. replace_all r [] t) t rs = t"
  by (induction rs) (simp_all add: no_match_replace_all)

lemma js_space: "js '' '' = [32]"
  by (simp add: js_def)

lemma replace_separators:
  "replace_all separators_re (js '' '') s = collapse (Pos [(46, 46), (45, 45), (95, 95)]) [32] False s"
  unfolding replace_all_def separators_re_def js_space by (rule replace_run_collapse)

lemma replace_spaces: "replace_all spaces_re (js '' '') s = collapse space [32] False s"
  unfolding replace_all_def spaces_re_def js_space by (rule replace_run_collapse)

lemma extractTitle_shape:
  "\<exists>v. extractTitle x = trim (collapse space [32] False (collapse (Pos [(46, 46), (45, 45), (95, 95)]) [32] False v))"
  unfolding extractTitle_def Let_def replace_separators replace_spaces by blast

lemma extractTitle_units:
  "c \<in> set (extractTitle x) \<Longrightarrow> c \<noteq> 46 \<and> c \<noteq> 45 \<and> c \<noteq> 95"
proof -
  assume c: "c \<in> set (extractTitle x)"
  from extractTitle_shape[of x] obtain v where
    e: "extractTitle x = trim (collapse space [32] False
          (collapse (Pos [(46, 46), (45, 45), (95, 95)]) [32] False v))" by blast
  let ?u = "collapse (Pos [(46, 46), (45, 45), (95, 95)]) [32] False v"
  from c e set_trim have "c \<in> set (collapse space [32] False ?u)" by auto
  from collapse_units[OF this] have "c = 32 \<or> c \<in> set ?u" by auto
  then show ?thesis
  proof
    assume "c = 32" then show ?thesis by simp
  next
    assume "c \<in> set ?u"
    from collapse_units[OF this] show ?thesis by auto
  qed
qed

lemma extractTitle_spaced: "spaced False (extractTitle x)"
proof -
  from extractTitle_shape[of x] obtain v where
    e: "extractTitle x = trim (collapse space [32] False
          (collapse (Pos [(46, 46), (45, 45), (95, 95)]) [32] False v))" by blast
  show ?thesis unfolding e by (rule spaced_trim[OF collapse_spaced])
qed

lemma extractTitle_trimmed: "trim (extractTitle x) = extractTitle x"
proof -
  from extractTitle_shape[of x] obtain v where
    e: "extractTitle x = trim (collapse space [32] False
          (collapse (Pos [(46, 46), (45, 45), (95, 95)]) [32] False v))" by blast
  show ?thesis unfolding e by (rule trim_trim)
qed

text \<open>
  C4 (as amended). Title extraction leaves its own output unchanged whenever that output
  contains no removable token (bracketed year, resolution, codec, audio, source or
  season-episode token).
\<close>

theorem C4_idempotent_without_tokens:
  assumes "no_token (extractTitle x)"
  shows "extractTitle (extractTitle x) = extractTitle x"
proof -
  let ?t = "extractTitle x"
  have nodot: "46 \<notin> set ?t" using extractTitle_units[of 46 x] by blast
  then have 1: "replace_first ext_re [] ?t = ?t"
    by (simp add: no_match_replace_first re_match_def ext_no_dot)
  from assms have 2: "foldl (\<lambda>t r. replace_all r [] t) ?t token_res = ?t"
    unfolding no_token_def by (rule foldl_no_token)
  have "\<forall>c \<in> set ?t. \<not> cls_ok (Pos [(46, 46), (45, 45), (95, 95)]) c"
    using extractTitle_units[of _ x] by auto
  then have 3: "replace_all separators_re (js '' '') ?t = ?t"
    unfolding replace_separators by (rule collapse_none)
  have 4: "replace_all spaces_re (js '' '') ?t = ?t"
    unfolding replace_spaces by (rule spaced_collapse_id[OF extractTitle_spaced])
  have "extractTitle ?t = trim ?t"
    unfolding extractTitle_def[of ?t] Let_def 1 2 3 4 ..
  then show ?thesis by (simp add: extractTitle_trimmed)
qed

theorem C4_idempotent_without_tokens_witness:
  "no_token (extractTitle (js ''Show.S02E05.1080p.mkv'')) \<and>
   extractTitle (js ''Show.S02E05.1080p.mkv'') = js ''Show'' \<and>
   extractTitle (extractTitle (js ''Show.S02E05.1080p.mkv'')) =
     extractTitle (js ''Show.S02E05.1080p.mkv'')"
proof -
  have h: "no_token (extractTitle (js ''Show.S02E05.1080p.mkv''))" by code_simp
  have e: "extractTitle (js ''Show.S02E05.1080p.mkv'') = js ''Show''" by code_simp
  from h e C4_idempotent_without_tokens[OF h] show ?thesis by (intro conjI)
qed

theorem C4_counterexample:
  "extractTitle (js ''DDTSTS'') = js ''DTS'' \<and>
   extractTitle (extractTitle (js ''DDTSTS'')) = [] \<and>
   extractTitle (extractTitle (js ''DDTSTS'')) \<noteq> extractTitle (js ''DDTSTS'')"
  by code_simp

end
